theory Spec2Isabelle
  imports
    Main
    "HOL-Library.Char_ord"
    "HOL-Library.List_Lexorder"
    "HOL-Library.Multiset"
begin

section \<open>Data model of nav.go\<close>

text \<open>
  Go's \<^verbatim>\<open>int\<close> is modelled by \<^typ>\<open>int\<close>; where the source adds or subtracts
  values that a caller chooses, the 64-bit wrap-around is written out with \<open>i64\<close>.
  Strings are byte lists; Go's \<^verbatim>\<open><\<close> on strings is the bytewise lexicographic
  order, which is the order of \<^typ>\<open>char list\<close> used here.
  A run-time panic (index out of range, nil dereference) is the value \<open>None\<close> of an
  option, or \<open>Inl Panic\<close> where the function also has ordinary error returns.
\<close>

datatype linkState = notLink | working | broken

text \<open>The part of \<^verbatim>\<open>os.FileInfo\<close> that nav.go reads: Name(), Size(), ModTime(),
  IsDir() and the symlink bit of Mode(). Times are instants on an integer clock.\<close>

record fileInfo =
  Name :: string
  Size :: int
  ModTime :: int
  IsDir :: bool
  ModeSymlink :: bool

text \<open>\<^verbatim>\<open>type file struct { os.FileInfo; linkState; path; count }\<close>: the embedded
  interface becomes the parent record (\<open>file\<close> is a reserved word, hence \<open>fileT\<close>).\<close>

record fileT = fileInfo +
  linkState :: linkState
  path :: string
  count :: int

text \<open>\<^verbatim>\<open>type dir struct\<close>. In the source \<open>fi\<close> and \<open>all\<close> are slices; \<open>sort\<close> starts with
  \<^verbatim>\<open>dir.fi = dir.all\<close>, so both name the same backing array (the struct comment says
  so) and every in-place swap through \<open>fi\<close> is a swap of \<open>all\<close>.\<close>

record dir =
  loading :: bool
  loadTime :: int
  ind :: int
  pos :: int
  path :: string
  fi :: "fileT list"
  all :: "fileT list"

text \<open>The fields of the global \<^verbatim>\<open>gOpts\<close> that nav.go reads, passed explicitly.\<close>

record opts =
  sortby :: string
  reverse :: bool
  dirfirst :: bool
  hidden :: bool
  scrolloff :: int
  previewer :: string

text \<open>Functions that nav.go calls and that are not in nav.go: \<^verbatim>\<open>naturalLess\<close> (another
  file of the repository) and \<^verbatim>\<open>strings.ToLower\<close>. They are parameters.\<close>

record ext =
  naturalLess :: "string \<Rightarrow> string \<Rightarrow> bool"
  toLower :: "string \<Rightarrow> string"

section \<open>sortFilesStable\<close>

text \<open>
  A \<open>less\<close> closure of the source reads \<^verbatim>\<open>dir.fi[i]\<close> and \<^verbatim>\<open>dir.fi[j]\<close> at the time it
  is called, and two of them also compare the indices themselves; so a closure is a
  function of the current array and the two indices. It yields \<open>None\<close> when it panics.
\<close>

type_synonym 'a lessfn = "'a list \<Rightarrow> nat \<Rightarrow> nat \<Rightarrow> bool option"

definition swap :: "nat \<Rightarrow> nat \<Rightarrow> 'a list \<Rightarrow> 'a list" where
  "swap i j xs = xs[i := xs ! j, j := xs ! i]"

text \<open>
  \<^verbatim>\<open>sort.Stable\<close> is Go's library. Its building block is
  \<^verbatim>\<open>for i := a+1; i < b; i++ { for j := i; j > a && Less(j, j-1); j-- { Swap(j, j-1) } }\<close>
  which is the whole algorithm up to 20 elements; longer inputs are cut into such
  blocks that are merged by \<^verbatim>\<open>symMerge\<close>, which also only ever asks \<^verbatim>\<open>Less(hi, lo)\<close>
  with \<open>lo < hi\<close> and, for a comparison that is a strict weak order of the entries,
  yields the same list. The model is the insertion sort.
\<close>

fun sift :: "'a lessfn \<Rightarrow> nat \<Rightarrow> 'a list \<Rightarrow> 'a list option" where
  "sift lt 0 xs = Some xs"
| "sift lt (Suc j) xs =
     (case lt xs (Suc j) j of
        None \<Rightarrow> None
      | Some b \<Rightarrow> if b then sift lt j (swap (Suc j) j xs) else Some xs)"

fun insertionSort :: "'a lessfn \<Rightarrow> nat list \<Rightarrow> 'a list \<Rightarrow> 'a list option" where
  "insertionSort lt [] xs = Some xs"
| "insertionSort lt (i # is) xs =
     (case sift lt i xs of None \<Rightarrow> None | Some ys \<Rightarrow> insertionSort lt is ys)"

definition sortFilesStable :: "'a lessfn \<Rightarrow> 'a list \<Rightarrow> 'a list option" where
  "sortFilesStable lt xs = insertionSort lt [1..<length xs] xs"

section \<open>dir.sort\<close>

definition less_natural :: "ext \<Rightarrow> fileT lessfn" where
  "less_natural x fs i j =
     Some (naturalLess x (toLower x (Name (fs ! i))) (toLower x (Name (fs ! j))))"

definition less_name :: "ext \<Rightarrow> fileT lessfn" where
  "less_name x fs i j = Some (toLower x (Name (fs ! i)) < toLower x (Name (fs ! j)))"

definition less_size :: "fileT lessfn" where
  "less_size fs i j = Some (Size (fs ! i) < Size (fs ! j))"

definition less_time :: "fileT lessfn" where
  "less_time fs i j = Some (ModTime (fs ! i) < ModTime (fs ! j))"

definition less_dirfirst :: "fileT lessfn" where
  "less_dirfirst fs i j =
     (if IsDir (fs ! i) = IsDir (fs ! j) then Some (i < j) else Some (IsDir (fs ! i)))"

text \<open>\<^verbatim>\<open>f.Name()[0]\<close>: indexing an empty string panics.\<close>

definition byte0 :: "string \<Rightarrow> char option" where
  "byte0 s = (case s of [] \<Rightarrow> None | c # _ \<Rightarrow> Some c)"

definition less_hidden :: "fileT lessfn" where
  "less_hidden fs i j =
     (case byte0 (Name (fs ! i)) of
        None \<Rightarrow> None
      | Some ci \<Rightarrow>
          if ci = CHR ''.'' then
            (case byte0 (Name (fs ! j)) of
               None \<Rightarrow> None
             | Some cj \<Rightarrow> if cj = CHR ''.'' then Some (i < j) else Some True)
          else Some False)"

text \<open>The loop after the hidden pass: cut the slice at the first entry whose name
  does not start with a dot, or to the empty slice when there is none.\<close>

fun trimHidden :: "fileT list \<Rightarrow> fileT list option" where
  "trimHidden [] = Some []"
| "trimHidden (f # fs) =
     (case byte0 (Name f) of
        None \<Rightarrow> None
      | Some c \<Rightarrow> if c \<noteq> CHR ''.'' then Some (f # fs) else trimHidden fs)"

definition sortKeyPass :: "ext \<Rightarrow> opts \<Rightarrow> fileT list \<Rightarrow> fileT list option" where
  "sortKeyPass x g fs =
     (if sortby g = ''natural'' then sortFilesStable (less_natural x) fs
      else if sortby g = ''name'' then sortFilesStable (less_name x) fs
      else if sortby g = ''size'' then sortFilesStable less_size fs
      else if sortby g = ''time'' then sortFilesStable less_time fs
      else Some fs)"

definition reversePass :: "opts \<Rightarrow> fileT list \<Rightarrow> fileT list" where
  "reversePass g fs = (if reverse g then rev fs else fs)"

definition dirfirstPass :: "opts \<Rightarrow> fileT list \<Rightarrow> fileT list option" where
  "dirfirstPass g fs = (if dirfirst g then sortFilesStable less_dirfirst fs else Some fs)"

text \<open>
  \<open>dir_sort\<close> is \<^verbatim>\<open>func (dir *dir) sort()\<close>. The array is sorted in place through
  \<open>fi\<close>, which was just set to \<open>all\<close>; so the sorted array is the new \<open>all\<close>, and
  \<open>fi\<close> is that array or, with hidden files off, its suffix after the dot entries.
  The message logged for an unknown sort key is not modelled.
\<close>

definition dir_sort :: "ext \<Rightarrow> opts \<Rightarrow> dir \<Rightarrow> dir option" where
  "dir_sort x g d =
     (case sortKeyPass x g (all d) of
        None \<Rightarrow> None
      | Some a1 \<Rightarrow>
         (case dirfirstPass g (reversePass g a1) of
            None \<Rightarrow> None
          | Some a3 \<Rightarrow>
              if \<not> hidden g then
                (case sortFilesStable less_hidden a3 of
                   None \<Rightarrow> None
                 | Some a4 \<Rightarrow>
                    (case trimHidden a4 of
                       None \<Rightarrow> None
                     | Some v \<Rightarrow> Some (d\<lparr>fi := v, all := a4\<rparr>)))
              else Some (d\<lparr>fi := a3, all := a3\<rparr>)))"

section \<open>Machine arithmetic\<close>

text \<open>Go's \<^verbatim>\<open>int\<close> is 64 bits wide here: sums and differences wrap around.
  \<^verbatim>\<open>/\<close> and \<^verbatim>\<open>%\<close> truncate towards zero.\<close>

definition i64 :: "int \<Rightarrow> int" where
  "i64 n = (n + 2 ^ 63) mod 2 ^ 64 - 2 ^ 63"

definition add64 :: "int \<Rightarrow> int \<Rightarrow> int" where
  "add64 a b = i64 (a + b)"

definition sub64 :: "int \<Rightarrow> int \<Rightarrow> int" where
  "sub64 a b = i64 (a - b)"

definition quot64 :: "int \<Rightarrow> int \<Rightarrow> int" where
  "quot64 a b = i64 (sgn a * sgn b * (\<bar>a\<bar> div \<bar>b\<bar>))"

definition rem64 :: "int \<Rightarrow> int \<Rightarrow> int" where
  "rem64 a b = sgn a * (\<bar>a\<bar> mod \<bar>b\<bar>)"

definition len :: "'a list \<Rightarrow> int" where
  "len xs = int (length xs)"

section \<open>dir.find\<close>

text \<open>The search loop of \<^verbatim>\<open>find\<close>: the index of the first entry with that name.\<close>

fun findName :: "string \<Rightarrow> fileT list \<Rightarrow> nat option" where
  "findName name [] = None"
| "findName name (f # fs) =
     (if Name f = name then Some 0 else map_option Suc (findName name fs))"

text \<open>\<^verbatim>\<open>func (dir *dir) find(name string, height int)\<close>; \<open>None\<close> is the panic of
  \<^verbatim>\<open>dir.fi[dir.ind]\<close> on a negative index.\<close>

definition dir_find :: "opts \<Rightarrow> string \<Rightarrow> int \<Rightarrow> dir \<Rightarrow> dir option" where
  "dir_find g name h d =
     (if len (fi d) = 0 then Some (d\<lparr>ind := 0, pos := 0\<rparr>)
      else
        let i1 = min (ind d) (len (fi d) - 1) in
        if i1 < 0 then None
        else
          let i2 = (if Name (fi d ! nat i1) \<noteq> name
                    then (case findName name (fi d) of Some i \<Rightarrow> int i | None \<Rightarrow> i1)
                    else i1);
              edge = min (scrolloff g) (sub64 (sub64 (len (fi d)) i2) 1)
          in Some (d\<lparr>ind := i2, pos := min i2 (sub64 (sub64 h edge) 1)\<rparr>))"

section \<open>Cursor movement on one Listing\<close>

text \<open>The bodies of \<^verbatim>\<open>nav.up\<close>, \<^verbatim>\<open>nav.down\<close>, \<^verbatim>\<open>nav.top\<close> and \<^verbatim>\<open>nav.bot\<close> after
  \<^verbatim>\<open>dir := nav.currDir()\<close>: they update the Listing behind that pointer.\<close>

definition dir_up :: "opts \<Rightarrow> int \<Rightarrow> dir \<Rightarrow> dir" where
  "dir_up g dist d =
     (if ind d = 0 then d
      else
        let i = max 0 (sub64 (ind d) dist);
            p = sub64 (pos d) dist;
            edge = min (scrolloff g) i
        in d\<lparr>ind := i, pos := max p edge\<rparr>)"

definition dir_down :: "opts \<Rightarrow> int \<Rightarrow> int \<Rightarrow> dir \<Rightarrow> dir" where
  "dir_down g h dist d =
     (let maxind = len (fi d) - 1 in
      if ind d \<ge> maxind then d
      else
        let i = min maxind (add64 (ind d) dist);
            p = add64 (pos d) dist;
            edge = min (scrolloff g) (sub64 maxind i);
            edge = min edge (sub64 (add64 (quot64 h 2) (rem64 h 2)) 1);
            p = min p (sub64 (sub64 h edge) 1);
            p = min p maxind
        in d\<lparr>ind := i, pos := p\<rparr>)"

definition dir_top :: "dir \<Rightarrow> dir" where
  "dir_top d = d\<lparr>ind := 0, pos := 0\<rparr>"

definition dir_bot :: "int \<Rightarrow> dir \<Rightarrow> dir" where
  "dir_bot h d =
     (let i = len (fi d) - 1 in d\<lparr>ind := i, pos := min i (sub64 h 1)\<rparr>)"

section \<open>The operating system\<close>

text \<open>An error of package \<^verbatim>\<open>os\<close>: whether \<^verbatim>\<open>os.IsNotExist\<close> holds of it, and its text.\<close>

datatype oserr = OsErr (isNotExist: bool) (msg: string)

text \<open>
  What the calls of nav.go into the operating system return, as functions of their
  arguments: \<^verbatim>\<open>os.Lstat\<close>, \<^verbatim>\<open>os.Stat\<close>, \<^verbatim>\<open>os.Open\<close> followed by
  \<^verbatim>\<open>Readdirnames(-1)\<close> (the names read and the error of the read), \<^verbatim>\<open>os.Chdir\<close>,
  \<^verbatim>\<open>time.Now\<close>, and for the previewer \<^verbatim>\<open>cmd.StdoutPipe\<close>, \<^verbatim>\<open>cmd.Start\<close> and what a
  \<^verbatim>\<open>bufio.Scanner\<close> reads from the pipe or from an opened file: the lines, and the
  scanner's final error.
\<close>

record world =
  lstat :: "string \<Rightarrow> oserr + fileInfo"
  stat :: "string \<Rightarrow> oserr + fileInfo"
  openDir :: "string \<Rightarrow> oserr + (string list \<times> oserr option)"
  chdir :: "string \<Rightarrow> oserr option"
  now :: int
  stdoutPipe :: "string \<Rightarrow> string \<Rightarrow> oserr option"
  start :: "string \<Rightarrow> string \<Rightarrow> oserr option"
  pipeLines :: "string \<Rightarrow> string \<Rightarrow> int \<Rightarrow> string list \<times> oserr option"
  openFile :: "string \<Rightarrow> oserr + (string list \<times> oserr option)"

text \<open>\<^verbatim>\<open>filepath.Join(path, filename)\<close> for a clean directory path and a plain name.\<close>

definition joinPath :: "string \<Rightarrow> string \<Rightarrow> string" where
  "joinPath p name = (if p \<noteq> [] \<and> last p = CHR ''/'' then p @ name else p @ ''/'' @ name)"

section \<open>readdir and newDir\<close>

definition mkFile :: "fileInfo \<Rightarrow> linkState \<Rightarrow> string \<Rightarrow> fileT" where
  "mkFile i l p = fileInfo.extend i (fileT.fields l p (- 1))"

text \<open>
  The loop of \<^verbatim>\<open>readdir\<close> over the names. The result is the slice built so far, the
  lines logged, and the error of the early \<^verbatim>\<open>return fi, lerr\<close> if that was taken.
\<close>

fun scanNames ::
  "world \<Rightarrow> string \<Rightarrow> string list \<Rightarrow> fileT list \<Rightarrow> string list
     \<Rightarrow> fileT list \<times> string list \<times> oserr option" where
  "scanNames w p [] acc lg = (acc, lg, None)"
| "scanNames w p (filename # names) acc lg =
     (let fpath = joinPath p filename in
      case lstat w fpath of
        Inl lerr \<Rightarrow>
          if isNotExist lerr then scanNames w p names acc lg
          else (acc, lg, Some lerr)
      | Inr li \<Rightarrow>
          if ModeSymlink li then
            (case stat w fpath of
               Inr si \<Rightarrow> scanNames w p names (acc @ [mkFile si working fpath]) lg
             | Inl serr \<Rightarrow>
                 scanNames w p names (acc @ [mkFile li broken fpath])
                   (lg @ [''getting link destination info: '' @ msg serr]))
          else scanNames w p names (acc @ [mkFile li notLink fpath]) lg)"

definition readdir :: "world \<Rightarrow> string \<Rightarrow> fileT list \<times> string list \<times> oserr option" where
  "readdir w p =
     (case openDir w p of
        Inl err \<Rightarrow> ([], [], Some err)
      | Inr (names, err) \<Rightarrow>
          (case scanNames w p names [] [] of
             (acc, lg, Some lerr) \<Rightarrow> (acc, lg, Some lerr)
           | (acc, lg, None) \<Rightarrow> (acc, lg, err)))"

definition newDir :: "world \<Rightarrow> string \<Rightarrow> dir \<times> string list" where
  "newDir w p =
     (case readdir w p of
        (acc, lg, err) \<Rightarrow>
          (\<lparr>loading = False, loadTime = now w, ind = 0, pos = 0, path = p,
            fi = acc, all = acc\<rparr>,
           lg @ (case err of None \<Rightarrow> [] | Some e \<Rightarrow> [''reading directory: '' @ msg e])))"

section \<open>nav\<close>

record reg =
  path :: string
  lines :: "string list"

text \<open>What the owner thread does that is not a change of its own fields, in program
  order: a \<^verbatim>\<open>go\<close> statement that starts a directory scan, a rescan or a preview, and
  a store into one of the two caches.\<close>

datatype effect =
    GoScan string
  | GoRenew nat
  | GoPreview
  | DirCachePut string
  | RegCachePut string

text \<open>
  \<^verbatim>\<open>type nav struct\<close>. \<^verbatim>\<open>dirs\<close> and \<^verbatim>\<open>dirCache\<close> hold pointers to Listings: \<open>heap\<close> is
  the store of the Listings allocated so far and an address is an index into it, so a
  Listing that is on the stack and in the cache is one object. The two channels are
  left out: a worker is recorded in \<open>effects\<close> when it is started, and what it sends
  is the result of the worker function. \<open>cwd\<close> is the working directory of the process.
\<close>

record nav =
  heap :: "dir list"
  dirs :: "nat list"
  dirCache :: "string \<rightharpoonup> nat"
  regCache :: "string \<rightharpoonup> reg"
  saves :: "string \<rightharpoonup> bool"
  marks :: "string \<rightharpoonup> int"
  markInd :: int
  height :: int
  search :: string
  effects :: "effect list"
  cwd :: string

datatype error = Panic | Err string

text \<open>\<^verbatim>\<open>nav.dirs[len(nav.dirs)-1]\<close> panics on an empty stack.\<close>

definition currDir :: "nav \<Rightarrow> nat option" where
  "currDir n = (if dirs n = [] then None else Some (last (dirs n)))"

definition currFile :: "nav \<Rightarrow> error + fileT" where
  "currFile n =
     (case currDir n of
        None \<Rightarrow> Inl Panic
      | Some a \<Rightarrow>
          let last = heap n ! a in
          if len (fi last) = 0 then Inl (Err ''empty directory'')
          else if ind last < 0 \<or> ind last \<ge> len (fi last) then Inl Panic
          else Inr (fi last ! nat (ind last)))"

text \<open>An operation on the current Listing through its pointer.\<close>

definition onCurrDir :: "(dir \<Rightarrow> dir) \<Rightarrow> nav \<Rightarrow> nav option" where
  "onCurrDir f n =
     (case currDir n of
        None \<Rightarrow> None
      | Some a \<Rightarrow> Some (n\<lparr>heap := (heap n)[a := f (heap n ! a)]\<rparr>))"

definition nav_up :: "opts \<Rightarrow> int \<Rightarrow> nav \<Rightarrow> nav option" where
  "nav_up g dist n = onCurrDir (dir_up g dist) n"

definition nav_down :: "opts \<Rightarrow> int \<Rightarrow> nav \<Rightarrow> nav option" where
  "nav_down g dist n = onCurrDir (dir_down g (height n) dist) n"

definition nav_top :: "nav \<Rightarrow> nav option" where
  "nav_top n = onCurrDir dir_top n"

definition nav_bot :: "nav \<Rightarrow> nav option" where
  "nav_bot n = onCurrDir (dir_bot (height n)) n"

section \<open>loadDir and open\<close>

definition placeholder :: "string \<Rightarrow> dir" where
  "placeholder p =
     \<lparr>loading = True, loadTime = 0, ind = 0, pos = 0, path = p, fi = [], all = []\<rparr>"

text \<open>\<^verbatim>\<open>func (nav *nav) loadDir(path string) *dir\<close>: on a miss the \<^verbatim>\<open>go\<close> statement comes
  first, then the placeholder is allocated and stored.\<close>

definition loadDir :: "string \<Rightarrow> nav \<Rightarrow> nat \<times> nav" where
  "loadDir p n =
     (case dirCache n p of
        Some a \<Rightarrow> (a, n)
      | None \<Rightarrow>
          let n1 = n\<lparr>effects := effects n @ [GoScan p]\<rparr>;
              a = length (heap n1);
              n2 = n1\<lparr>heap := heap n1 @ [placeholder p]\<rparr>;
              n3 = n2\<lparr>dirCache := (dirCache n2)(p \<mapsto> a),
                      effects := effects n2 @ [DirCachePut p]\<rparr>
          in (a, n3))"

text \<open>The goroutine of \<^verbatim>\<open>loadDir\<close>: what it sends on \<^verbatim>\<open>dirChan\<close> and logs, or the
  panic of the sort.\<close>

definition loadDirWorker :: "world \<Rightarrow> ext \<Rightarrow> opts \<Rightarrow> string \<Rightarrow> (error + dir) \<times> string list" where
  "loadDirWorker w x g p =
     (case newDir w p of
        (d, lg) \<Rightarrow>
          (case dir_sort x g d of
             None \<Rightarrow> (Inl Panic, lg)
           | Some d' \<Rightarrow> (Inr (d'\<lparr>ind := 0, pos := 0\<rparr>), lg)))"

text \<open>\<^verbatim>\<open>func (nav *nav) open() error\<close>: the error returned (\<open>None\<close> is \<^verbatim>\<open>nil\<close>) and the
  state after the call.\<close>

definition nav_open :: "world \<Rightarrow> nav \<Rightarrow> error option \<times> nav" where
  "nav_open w n =
     (case currFile n of
        Inl Panic \<Rightarrow> (Some Panic, n)
      | Inl (Err e) \<Rightarrow> (Some (Err (''open: '' @ e)), n)
      | Inr cf \<Rightarrow>
          let p = fileT.path cf;
              (a, n1) = loadDir p n;
              n2 = n1\<lparr>dirs := dirs n1 @ [a]\<rparr>
          in case chdir w p of
               Some e \<Rightarrow> (Some (Err (''open: '' @ msg e)), n2)
             | None \<Rightarrow> (None, n2\<lparr>cwd := p\<rparr>))"

section \<open>Marks\<close>

definition toggleMark :: "string \<Rightarrow> nav \<Rightarrow> nav" where
  "toggleMark p n =
     (case marks n p of
        Some _ \<Rightarrow>
          let n1 = n\<lparr>marks := (marks n)(p := None)\<rparr>
          in if marks n1 = Map.empty then n1\<lparr>markInd := 0\<rparr> else n1
      | None \<Rightarrow>
          let n1 = n\<lparr>marks := (marks n)(p \<mapsto> markInd n)\<rparr>
          in n1\<lparr>markInd := add64 (markInd n1) 1\<rparr>)"

text \<open>
  \<^verbatim>\<open>func (nav *nav) currMarks() []string\<close>. Go ranges over a map in an order of its
  own choosing: \<open>ks\<close> is that order, an enumeration of the keys. \<^verbatim>\<open>sort.Sort\<close> is
  Go's library; it sorts the pairs by index and is not stable. On pairwise different
  indices every sorting function gives the same list, the insertion sort used here too.
\<close>

definition currMarks :: "string list \<Rightarrow> nav \<Rightarrow> string list" where
  "currMarks ks n =
     (let pairs = map (\<lambda>k. (k, the (marks n k))) ks
      in map fst (sort_key snd pairs))"

section \<open>renew\<close>

text \<open>
  The goroutine that \<^verbatim>\<open>nav.renew\<close> starts for a Listing \<open>d\<close> of the stack. \<^verbatim>\<open>os.Stat\<close>
  returns a nil \<^verbatim>\<open>FileInfo\<close> with an error; the source logs the error and goes on to
  \<^verbatim>\<open>s.ModTime()\<close>, a method call on the nil interface, which panics. Otherwise the
  result is \<open>d\<close> as the goroutine leaves it and the Listing it sends, if any.
\<close>

definition renewWorker ::
  "world \<Rightarrow> ext \<Rightarrow> opts \<Rightarrow> dir \<Rightarrow> (error + dir \<times> dir option) \<times> string list" where
  "renewWorker w x g d =
     (case stat w (dir.path d) of
        Inl err \<Rightarrow> (Inl Panic, [''getting directory info: '' @ msg err])
      | Inr s \<Rightarrow>
          if loadTime d > ModTime s then (Inr (d, None), [])
          else
            let d1 = d\<lparr>loadTime := now w\<rparr> in
            case newDir w (dir.path d1) of
              (nd, lg) \<Rightarrow>
                (case dir_sort x g nd of
                   None \<Rightarrow> (Inl Panic, lg)
                 | Some nd' \<Rightarrow> (Inr (d1, Some nd'), lg)))"

text \<open>The part of \<^verbatim>\<open>nav.renew\<close> that runs on the owner thread.\<close>

definition statNotExist :: "world \<Rightarrow> string \<Rightarrow> bool" where
  "statNotExist w m = (case stat w m of Inl err \<Rightarrow> isNotExist err | Inr _ \<Rightarrow> False)"

definition nav_renew :: "world \<Rightarrow> int \<Rightarrow> nav \<Rightarrow> nav" where
  "nav_renew w h n =
     (let n1 = n\<lparr>dirCache := fold (\<lambda>a c. c(dir.path (heap n ! a) \<mapsto> a)) (dirs n) Map.empty,
                 effects := effects n @ map (\<lambda>a. DirCachePut (dir.path (heap n ! a))) (dirs n)\<rparr>;
          n2 = n1\<lparr>height := h\<rparr>;
          n3 = n2\<lparr>effects := effects n2 @ map GoRenew (dirs n2)\<rparr>;
          n4 = n3\<lparr>marks := (\<lambda>m. if statNotExist w m then None else marks n3 m)\<rparr>
      in if marks n4 = Map.empty then n4\<lparr>markInd := 0\<rparr> else n4)"

section \<open>preview and loadReg\<close>

definition binaryLine :: string where
  "binaryLine = [CHR 0x1B] @ ''[1mbinary'' @ [CHR 0x1B] @ ''[0m''"

definition loadingLine :: string where
  "loadingLine = [CHR 0x1B] @ ''[1mloading...'' @ [CHR 0x1B] @ ''[0m''"

text \<open>The loop \<^verbatim>\<open>for i := 0; i < nav.height && buf.Scan(); i++\<close>: \<open>Inl\<close> is the early
  return on a NUL, \<open>Inr\<close> the lines collected when the loop ends.\<close>

fun scanLoop :: "nat \<Rightarrow> string list \<Rightarrow> string list \<Rightarrow> string list + string list" where
  "scanLoop 0 ls acc = Inr acc"
| "scanLoop (Suc k) [] acc = Inr acc"
| "scanLoop (Suc k) (l # ls) acc =
     (if CHR 0x00 \<in> set l then Inl [binaryLine] else scanLoop k ls (acc @ [l]))"

text \<open>From \<^verbatim>\<open>reg := &reg{path: curr.path}\<close> to the end of \<^verbatim>\<open>preview\<close>: the Register sent
  on \<^verbatim>\<open>regChan\<close> and the lines logged. \<^verbatim>\<open>buf.Err()\<close> is set only if the scanner was
  asked for a line after the last one.\<close>

definition scanReg :: "string \<Rightarrow> int \<Rightarrow> string list \<times> oserr option \<Rightarrow> reg \<times> string list" where
  "scanReg p h content =
     (case content of
        (ls, err) \<Rightarrow>
          (case scanLoop (nat h) ls [] of
             Inl bin \<Rightarrow> (\<lparr>path = p, lines = bin\<rparr>, [])
           | Inr acc \<Rightarrow>
               (\<lparr>path = p, lines = acc\<rparr>,
                case err of
                  Some e \<Rightarrow> if len ls < h then [''loading file: '' @ msg e] else []
                | None \<Rightarrow> [])))"

text \<open>
  \<^verbatim>\<open>func (nav *nav) preview()\<close>, run as a goroutine on the state \<open>n\<close> that the owner
  has at that time: \<open>Inr None\<close> is the return without a Register, \<open>Inr (Some r)\<close> the
  Register sent. When \<^verbatim>\<open>cmd.StdoutPipe\<close> fails, \<open>out\<close> is the nil interface and
  \<^verbatim>\<open>defer out.Close()\<close> panics. When \<^verbatim>\<open>os.Open\<close> fails, \<open>f\<close> is a nil \<^verbatim>\<open>*os.File\<close>,
  whose methods return \<^verbatim>\<open>os.ErrInvalid\<close>: the scanner reads nothing.
\<close>

definition preview :: "world \<Rightarrow> opts \<Rightarrow> nav \<Rightarrow> (error + reg option) \<times> string list" where
  "preview w g n =
     (case currFile n of
        Inl Panic \<Rightarrow> (Inl Panic, [])
      | Inl (Err _) \<Rightarrow> (Inr None, [])
      | Inr cf \<Rightarrow>
          if len (previewer g) \<noteq> 0 then
            let lg1 = (case stdoutPipe w (previewer g) (fileT.path cf) of
                         Some e \<Rightarrow> [''previewing file: '' @ msg e] | None \<Rightarrow> []);
                lg2 = (case start w (previewer g) (fileT.path cf) of
                         Some e \<Rightarrow> [''previewing file: '' @ msg e] | None \<Rightarrow> [])
            in if stdoutPipe w (previewer g) (fileT.path cf) \<noteq> None
               then (Inl Panic, lg1 @ lg2)
               else
                 (case scanReg (fileT.path cf) (height n)
                         (pipeLines w (previewer g) (fileT.path cf) (height n)) of
                    (r, lg3) \<Rightarrow> (Inr (Some r), lg1 @ lg2 @ lg3))
          else
            (case openFile w (fileT.path cf) of
               Inl e \<Rightarrow>
                 (case scanReg (fileT.path cf) (height n)
                         ([], Some (OsErr False ''invalid argument'')) of
                    (r, lg3) \<Rightarrow> (Inr (Some r), [''opening file: '' @ msg e] @ lg3))
             | Inr content \<Rightarrow>
                 (case scanReg (fileT.path cf) (height n) content of
                    (r, lg3) \<Rightarrow> (Inr (Some r), lg3))))"

text \<open>\<^verbatim>\<open>func (nav *nav) loadReg(ui *ui, path string) *reg\<close>; \<open>ui\<close> is not used. The
  goroutine is \<^verbatim>\<open>nav.preview()\<close>: it is not given \<open>path\<close>.\<close>

definition loadReg :: "string \<Rightarrow> nav \<Rightarrow> reg \<times> nav" where
  "loadReg p n =
     (case regCache n p of
        Some r \<Rightarrow> (r, n)
      | None \<Rightarrow>
          let n1 = n\<lparr>effects := effects n @ [GoPreview]\<rparr>;
              r = \<lparr>path = p, lines = [loadingLine]\<rparr>;
              n2 = n1\<lparr>regCache := (regCache n1)(p \<mapsto> r),
                      effects := effects n1 @ [RegCachePut p]\<rparr>
          in (r, n2))"

section \<open>Notions used to state the properties\<close>

text \<open>Insertion of \<open>x\<close> into a reversed prefix, as the inner loop of the insertion sort
  does it: \<open>x\<close> moves towards the front while it is less than its neighbour.\<close>

fun insr :: "('a \<Rightarrow> 'a \<Rightarrow> bool) \<Rightarrow> 'a \<Rightarrow> 'a list \<Rightarrow> 'a list" where
  "insr lt x [] = [x]"
| "insr lt x (y # rp) = (if lt x y then y # insr lt x rp else x # y # rp)"

definition stableBy :: "('a \<Rightarrow> 'a \<Rightarrow> bool) \<Rightarrow> 'a list \<Rightarrow> 'a list" where
  "stableBy lt xs = rev (fold (insr lt) xs [])"

text \<open>A name that begins with a dot.\<close>

definition dot :: "fileT \<Rightarrow> bool" where
  "dot f = (byte0 (Name f) = Some CHR ''.'')"

text \<open>A stable partition: the entries with \<open>p\<close> first.\<close>

definition part :: "('a \<Rightarrow> bool) \<Rightarrow> 'a list \<Rightarrow> 'a list" where
  "part p xs = filter p xs @ filter (\<lambda>a. \<not> p a) xs"

definition keySorted :: "ext \<Rightarrow> opts \<Rightarrow> fileT list \<Rightarrow> fileT list" where
  "keySorted x g fs =
     (if sortby g = ''natural'' then
        stableBy (\<lambda>a b. naturalLess x (toLower x (Name a)) (toLower x (Name b))) fs
      else if sortby g = ''name'' then sort_key (\<lambda>f. toLower x (Name f)) fs
      else if sortby g = ''size'' then sort_key Size fs
      else if sortby g = ''time'' then sort_key ModTime fs
      else fs)"

definition sortedAll :: "ext \<Rightarrow> opts \<Rightarrow> fileT list \<Rightarrow> fileT list" where
  "sortedAll x g fs =
     (let a2 = reversePass g (keySorted x g fs);
          a3 = (if dirfirst g then part IsDir a2 else a2)
      in if hidden g then a3 else part dot a3)"

definition visibleOf :: "opts \<Rightarrow> fileT list \<Rightarrow> fileT list" where
  "visibleOf g a = (if hidden g then a else filter (\<lambda>f. \<not> dot f) a)"

text \<open>The invariants of a Listing for a viewport of height \<open>h\<close>.\<close>

definition listingInv :: "int \<Rightarrow> dir \<Rightarrow> bool" where
  "listingInv h d =
     ((if fi d = [] then ind d = 0 \<and> pos d = 0 else 0 \<le> ind d \<and> ind d < len (fi d))
      \<and> 0 \<le> pos d \<and> pos d \<le> min (ind d) (h - 1))"

text \<open>The arguments under which the cursor operations keep the invariants: a viewport
  of at least one row, a scroll margin within it, a distance that is not negative,
  and sizes far from the ends of the 64-bit range.\<close>

definition cursorArgs :: "opts \<Rightarrow> int \<Rightarrow> int \<Rightarrow> dir \<Rightarrow> bool" where
  "cursorArgs g h dist d =
     (1 \<le> h \<and> h < 2 ^ 62 \<and> 0 \<le> scrolloff g \<and> scrolloff g < h
      \<and> 0 \<le> dist \<and> dist < 2 ^ 62 \<and> len (fi d) < 2 ^ 62)"

text \<open>A run of \<^verbatim>\<open>loadDir\<close> requests, and of \<^verbatim>\<open>toggleMark\<close> calls.\<close>

definition loadDirs :: "string list \<Rightarrow> nav \<Rightarrow> nav" where
  "loadDirs ps n = fold (\<lambda>p m. snd (loadDir p m)) ps n"

definition toggles :: "string list \<Rightarrow> nav \<Rightarrow> nav" where
  "toggles ps n = fold toggleMark ps n"

text \<open>The mark set as the specification describes it: the marked paths in the order
  in which they were toggled on; a toggle adds a path at the end, or removes it if
  it is present.\<close>

definition toggleSpec :: "string \<Rightarrow> string list \<Rightarrow> string list" where
  "toggleSpec p xs = (if p \<in> set xs then removeAll p xs else xs @ [p])"

text \<open>The number of directory scans that \<^verbatim>\<open>loadDir\<close> has started for a path.\<close>

definition scans :: "string \<Rightarrow> nav \<Rightarrow> nat" where
  "scans q n = length (filter (\<lambda>e. e = GoScan q) (effects n))"

text \<open>The mark map \<open>marks n\<close> holds the paths \<open>xs\<close>, with indices that grow along
  \<open>xs\<close> and stay below the counter.\<close>

definition marksInv :: "nav \<Rightarrow> string list \<Rightarrow> bool" where
  "marksInv n xs =
     (distinct xs \<and> dom (marks n) = set xs
      \<and> sorted_wrt (<) (map (\<lambda>k. the (marks n k)) xs)
      \<and> (\<forall>k\<in>set xs. the (marks n k) < markInd n)
      \<and> 0 \<le> markInd n)"

text \<open>For the scan of a directory: an entry that \<^verbatim>\<open>os.Lstat\<close> reports as not
  existing; an entry on which \<^verbatim>\<open>os.Lstat\<close> fails in another way; a symbolic link whose
  target \<^verbatim>\<open>os.Stat\<close> cannot reach.\<close>

definition vanished :: "world \<Rightarrow> string \<Rightarrow> bool" where
  "vanished w q = (case lstat w q of Inl e \<Rightarrow> isNotExist e | Inr _ \<Rightarrow> False)"

definition lstatFails :: "world \<Rightarrow> string \<Rightarrow> bool" where
  "lstatFails w q = (case lstat w q of Inl e \<Rightarrow> \<not> isNotExist e | Inr _ \<Rightarrow> False)"

definition brokenLink :: "world \<Rightarrow> string \<Rightarrow> fileInfo \<Rightarrow> bool" where
  "brokenLink w q li =
     (lstat w q = Inr li \<and> ModeSymlink li \<and> (case stat w q of Inl _ \<Rightarrow> True | Inr _ \<Rightarrow> False))"

text \<open>Some entry of the list and a later one are related by \<open>c\<close>.\<close>

fun tiedPair :: "('a \<Rightarrow> 'a \<Rightarrow> bool) \<Rightarrow> 'a list \<Rightarrow> bool" where
  "tiedPair c [] = False"
| "tiedPair c (f # fs) = (list_ex (c f) fs \<or> tiedPair c fs)"

text \<open>Two entries tie under the configured sort key: neither is less than the other.
  With an unknown key nothing is sorted, so all entries tie.\<close>

definition keyTie :: "ext \<Rightarrow> opts \<Rightarrow> fileT \<Rightarrow> fileT \<Rightarrow> bool" where
  "keyTie x g a b =
     (if sortby g = ''natural'' then
        \<not> naturalLess x (toLower x (Name a)) (toLower x (Name b))
        \<and> \<not> naturalLess x (toLower x (Name b)) (toLower x (Name a))
      else if sortby g = ''name'' then toLower x (Name a) = toLower x (Name b)
      else if sortby g = ''size'' then Size a = Size b
      else if sortby g = ''time'' then ModTime a = ModTime b
      else True)"

text \<open>Two entries that the directories-first pass does not separate.\<close>

definition sameClass :: "opts \<Rightarrow> fileT \<Rightarrow> fileT \<Rightarrow> bool" where
  "sameClass g a b = (if dirfirst g then IsDir a = IsDir b else True)"

text \<open>The configurations in which a second \<open>sort\<close> changes the visible order: the
  reversal is on, and two visible entries that no later pass separates tie under
  the sort key.\<close>

definition flipping :: "ext \<Rightarrow> opts \<Rightarrow> fileT list \<Rightarrow> bool" where
  "flipping x g fs =
     (reverse g \<and> tiedPair (\<lambda>a b. keyTie x g a b \<and> sameClass g a b) (visibleOf g fs))"

text \<open>The passes of \<open>sort\<close> that order the visible entries, for a sort key \<open>k\<close>.\<close>

definition viewOf :: "opts \<Rightarrow> (fileT \<Rightarrow> 'k::linorder) \<Rightarrow> fileT list \<Rightarrow> fileT list" where
  "viewOf g k ys =
     (let a2 = reversePass g (sort_key k ys) in if dirfirst g then part IsDir a2 else a2)"

text \<open>What the scan of a directory makes of one name when it does not stop there: the
  entry, if any, and the line logged, if any. Then the entries and the log of a
  list of names.\<close>

definition scanEntry :: "world \<Rightarrow> string \<Rightarrow> string \<Rightarrow> fileT list \<times> string list" where
  "scanEntry w p nm =
     (let q = joinPath p nm in
      case lstat w q of
        Inl _ \<Rightarrow> ([], [])
      | Inr li \<Rightarrow>
          if ModeSymlink li then
            (case stat w q of
               Inr si \<Rightarrow> ([mkFile si working q], [])
             | Inl serr \<Rightarrow>
                 ([mkFile li broken q], [''getting link destination info: '' @ msg serr]))
          else ([mkFile li notLink q], []))"

definition scanEntries :: "world \<Rightarrow> string \<Rightarrow> string list \<Rightarrow> fileT list" where
  "scanEntries w p names = concat (map (\<lambda>nm. fst (scanEntry w p nm)) names)"

definition linkMsgs :: "world \<Rightarrow> string \<Rightarrow> string list \<Rightarrow> string list" where
  "linkMsgs w p names = concat (map (\<lambda>nm. snd (scanEntry w p nm)) names)"

section \<open>Concrete inputs\<close>

text \<open>A few files, options and Listings on which the theorems below are run.
  \<open>exExt\<close> stands for the two library functions: names are compared as they are.\<close>
definition exFile :: "string \<Rightarrow> int \<Rightarrow> bool \<Rightarrow> fileT" where
  "exFile nm sz isdir =
     mkFile \<lparr>Name = nm, Size = sz, ModTime = 0, IsDir = isdir, ModeSymlink = False\<rparr>
       notLink (''/d/'' @ nm)"

definition exExt :: ext where
  "exExt = \<lparr>naturalLess = (\<lambda>a b. a < b), toLower = (\<lambda>s. s)\<rparr>"

definition exOpts :: "string \<Rightarrow> bool \<Rightarrow> bool \<Rightarrow> bool \<Rightarrow> opts" where
  "exOpts key rv df hid =
     \<lparr>sortby = key, reverse = rv, dirfirst = df, hidden = hid, scrolloff = 0, previewer = []\<rparr>"

definition exDir :: "fileT list \<Rightarrow> dir" where
  "exDir fs = \<lparr>loading = False, loadTime = 0, ind = 0, pos = 0, path = ''/d'', fi = fs, all = fs\<rparr>"
definition exA :: fileT where "exA = exFile ''a.txt'' 1 False"
definition exB :: fileT where "exB = exFile ''b.txt'' 1 False"
definition exH :: fileT where "exH = exFile ''.hidden'' 1 False"

definition exNav :: "int \<Rightarrow> dir \<Rightarrow> nav" where
  "exNav h d =
     \<lparr>heap = [d], dirs = [0], dirCache = [dir.path d \<mapsto> 0], regCache = Map.empty,
      saves = Map.empty, marks = Map.empty, markInd = 0, height = h, search = [],
      effects = [], cwd = dir.path d\<rparr>"

definition exList :: dir where
  "exList = (exDir (replicate 10 exA))\<lparr>ind := 9, pos := 4\<rparr>"

text \<open>A world in which nothing exists, no directory can be entered, and every file
  that is opened holds one line.\<close>

definition exWorld :: world where
  "exWorld =
     \<lparr>lstat = (\<lambda>p. Inl (OsErr True ''no such file or directory'')),
      stat = (\<lambda>p. Inl (OsErr True ''no such file or directory'')),
      openDir = (\<lambda>p. Inl (OsErr True ''no such file or directory'')),
      chdir = (\<lambda>p. Some (OsErr False ''not a directory'')),
      now = 0,
      stdoutPipe = (\<lambda>c p. None),
      start = (\<lambda>c p. None),
      pipeLines = (\<lambda>c p h. ([], None)),
      openFile = (\<lambda>p. Inr ([''text of '' @ p], None))\<rparr>"

definition exInfo :: "string \<Rightarrow> bool \<Rightarrow> fileInfo" where
  "exInfo nm link = \<lparr>Name = nm, Size = 1, ModTime = 0, IsDir = False, ModeSymlink = link\<rparr>"

text \<open>A file system: in \<open>/d\<close> the entry \<open>x\<close> cannot be examined and \<open>y\<close> is a file; in
  \<open>/e\<close> the entry \<open>gone\<close> has vanished, \<open>link\<close> is a dangling link, \<open>f\<close> is a file.\<close>

definition exFs :: world where
  "exFs = exWorld
     \<lparr>lstat := (\<lambda>q. if q = ''/d/x'' then Inl (OsErr False ''permission denied'')
                   else if q = ''/d/y'' then Inr (exInfo ''y'' False)
                   else if q = ''/e/link'' then Inr (exInfo ''link'' True)
                   else if q = ''/e/f'' then Inr (exInfo ''f'' False)
                   else Inl (OsErr True ''no such file or directory'')),
      stat := (\<lambda>q. if q = ''/d/y'' then Inr (exInfo ''y'' False)
                  else if q = ''/e/f'' then Inr (exInfo ''f'' False)
                  else Inl (OsErr True ''no such file or directory'')),
      openDir := (\<lambda>p. if p = ''/d'' then Inr ([''x'', ''y''], None)
                     else if p = ''/e'' then Inr ([''gone'', ''link'', ''f''], None)
                     else Inl (OsErr True ''no such file or directory''))\<rparr>"

text \<open>Options with a previewer, and two worlds in which the previewer's pipe, or its
  start, fails.\<close>

definition exPv :: opts where
  "exPv = (exOpts ''name'' False False True)\<lparr>previewer := ''pv''\<rparr>"

definition exNoPipe :: world where
  "exNoPipe = exWorld\<lparr>stdoutPipe := (\<lambda>c p. Some (OsErr False ''too many open files''))\<rparr>"

definition exNoStart :: world where
  "exNoStart = exWorld\<lparr>start := (\<lambda>c p. Some (OsErr False ''executable file not found''))\<rparr>"

text \<open>A directory entry, and a world in which every directory can be entered.\<close>

definition exSub :: fileT where "exSub = exFile ''sub'' 1 True"

definition exEnter :: world where
  "exEnter = exWorld\<lparr>chdir := (\<lambda>p. None)\<rparr>"

section \<open>The insertion sort is the stable sort\<close>


lemma set_insr: "set (insr lt x rp) = insert x (set rp)"
  by (induction rp) auto

lemma length_insr: "length (insr lt x rp) = Suc (length rp)"
  by (induction rp) auto

lemma mset_insr: "mset (insr lt x rp) = add_mset x (mset rp)"
  by (induction rp) auto

lemma swap_adjacent:
  "swap (Suc (length pre)) (length pre) (pre @ y # x # post) = pre @ x # y # post"
  by (simp add: swap_def list_update_append nth_append)

lemma sift_insr:
  assumes lf: "\<And>ys i. set ys = S \<Longrightarrow> Suc i < length ys \<Longrightarrow>
                 lf ys (Suc i) i = Some (lt (ys ! Suc i) (ys ! i))"
  shows "set (rev rp @ x # post) = S \<Longrightarrow>
         sift lf (length rp) (rev rp @ x # post) = Some (rev (insr lt x rp) @ post)"
proof (induction rp arbitrary: post)
  case Nil
  then show ?case by simp
next
  case (Cons y rp)
  let ?ys = "rev rp @ y # x # post"
  have S: "set ?ys = S" using Cons.prems by auto
  have l: "lf ?ys (Suc (length rp)) (length rp) = Some (lt x y)"
    using lf [OF S, of "length rp"] by (simp add: nth_append)
  show ?case
  proof (cases "lt x y")
    case True
    have "set (rev rp @ x # y # post) = S" using Cons.prems by auto
    from Cons.IH [OF this] True l show ?thesis
      using swap_adjacent [of "rev rp" y x post] by simp
  next
    case False
    with l show ?thesis by simp
  qed
qed

lemma insertionSort_fold:
  assumes lf: "\<And>ys i. set ys = S \<Longrightarrow> Suc i < length ys \<Longrightarrow>
                 lf ys (Suc i) i = Some (lt (ys ! Suc i) (ys ! i))"
  shows "set (rev rp @ rest) = S \<Longrightarrow>
         insertionSort lf [length rp..<length rp + length rest] (rev rp @ rest)
           = Some (rev (fold (insr lt) rest rp))"
proof (induction rest arbitrary: rp)
  case Nil
  then show ?case by simp
next
  case (Cons x rest)
  have up: "[length rp..<length rp + length (x # rest)]
            = length rp # [length (insr lt x rp)..<length (insr lt x rp) + length rest]"
    by (subst upt_rec) (simp add: length_insr)
  have S': "set (rev (insr lt x rp) @ rest) = S"
    using Cons.prems by (auto simp: set_insr)
  show ?case
    unfolding up using sift_insr [of S lf lt rp x rest, OF lf Cons.prems] Cons.IH [OF S']
    by simp
qed

lemma sortFilesStable_stableBy:
  assumes lf: "\<And>ys i. set ys = set xs \<Longrightarrow> Suc i < length ys \<Longrightarrow>
                 lf ys (Suc i) i = Some (lt (ys ! Suc i) (ys ! i))"
  shows "sortFilesStable lf xs = Some (stableBy lt xs)"
proof (cases xs)
  case Nil
  then show ?thesis by (simp add: sortFilesStable_def stableBy_def)
next
  case (Cons a as)
  have "insertionSort lf [length ([]::'a list)..<length ([]::'a list) + length xs] (rev [] @ xs)
          = Some (rev (fold (insr lt) xs []))"
    by (rule insertionSort_fold [of "set xs" lf lt]) (use lf in auto)
  moreover have "[0..<length xs] = 0 # [1..<length xs]"
    using Cons by (subst upt_rec) simp
  ultimately show ?thesis
    by (simp add: sortFilesStable_def stableBy_def)
qed


lemma mset_fold_insr: "mset (fold (insr lt) xs acc) = mset xs + mset acc"
  by (induction xs arbitrary: acc) (auto simp: mset_insr)

lemma mset_stableBy: "mset (stableBy lt xs) = mset xs"
  by (simp add: stableBy_def mset_fold_insr)

lemma set_stableBy: "set (stableBy lt xs) = set xs"
  using mset_stableBy [of lt xs] by (metis set_mset_mset)

lemma insr_partition:
  "\<forall>y\<in>set nb. \<not> p y \<Longrightarrow> \<forall>y\<in>set pa. p y \<Longrightarrow>
   insr (\<lambda>a b. p a \<and> \<not> p b) x (nb @ pa) = (if p x then nb @ x # pa else x # nb @ pa)"
proof (induction nb)
  case Nil
  then show ?case by (cases pa) auto
next
  case (Cons y nb)
  then show ?case by auto
qed

lemma fold_insr_partition:
  "\<forall>y\<in>set nb. \<not> p y \<Longrightarrow> \<forall>y\<in>set pa. p y \<Longrightarrow>
   fold (insr (\<lambda>a b. p a \<and> \<not> p b)) xs (nb @ pa)
     = rev (filter (\<lambda>a. \<not> p a) xs) @ nb @ rev (filter p xs) @ pa"
proof (induction xs arbitrary: nb pa)
  case Nil
  then show ?case by simp
next
  case (Cons x xs)
  show ?case
  proof (cases "p x")
    case True
    have "fold (insr (\<lambda>a b. p a \<and> \<not> p b)) xs (nb @ (x # pa))
            = rev (filter (\<lambda>a. \<not> p a) xs) @ nb @ rev (filter p xs) @ (x # pa)"
      by (rule Cons.IH) (use Cons.prems True in auto)
    then show ?thesis
      using True insr_partition [OF Cons.prems, of x] by simp
  next
    case False
    have "fold (insr (\<lambda>a b. p a \<and> \<not> p b)) xs ((x # nb) @ pa)
            = rev (filter (\<lambda>a. \<not> p a) xs) @ (x # nb) @ rev (filter p xs) @ pa"
      by (rule Cons.IH) (use Cons.prems False in auto)
    then show ?thesis
      using False insr_partition [OF Cons.prems, of x] by simp
  qed
qed

lemma stableBy_partition:
  "stableBy (\<lambda>a b. p a \<and> \<not> p b) xs = filter p xs @ filter (\<lambda>a. \<not> p a) xs"
  using fold_insr_partition [of "[]" p "[]" xs] by (simp add: stableBy_def rev_filter)

lemma sorted_insr:
  fixes f :: "'a \<Rightarrow> 'k::linorder"
  shows "sorted (map f (rev rp)) \<Longrightarrow> sorted (map f (rev (insr (\<lambda>a b. f a < f b) x rp)))"
  by (induction rp) (auto simp: sorted_append set_insr)

lemma sorted_fold_insr:
  fixes f :: "'a \<Rightarrow> 'k::linorder"
  shows "sorted (map f (rev acc)) \<Longrightarrow>
         sorted (map f (rev (fold (insr (\<lambda>a b. f a < f b)) xs acc)))"
  by (induction xs arbitrary: acc) (auto simp: sorted_insr)

lemma filter_insr:
  fixes f :: "'a \<Rightarrow> 'k::linorder"
  shows "filter (\<lambda>z. c = f z) (insr (\<lambda>a b. f a < f b) x rp)
           = (if c = f x then [x] else []) @ filter (\<lambda>z. c = f z) rp"
  by (induction rp) auto

lemma filter_fold_insr:
  fixes f :: "'a \<Rightarrow> 'k::linorder"
  shows "filter (\<lambda>z. c = f z) (fold (insr (\<lambda>a b. f a < f b)) xs acc)
           = rev (filter (\<lambda>z. c = f z) xs) @ filter (\<lambda>z. c = f z) acc"
  by (induction xs arbitrary: acc) (auto simp: filter_insr)

lemma stableBy_sort_key:
  fixes f :: "'a \<Rightarrow> 'k::linorder"
  shows "stableBy (\<lambda>a b. f a < f b) xs = sort_key f xs"
proof (rule sym, rule properties_for_sort_key)
  show "mset (stableBy (\<lambda>a b. f a < f b) xs) = mset xs"
    by (rule mset_stableBy)
  show "sorted (map f (stableBy (\<lambda>a b. f a < f b) xs))"
    unfolding stableBy_def by (rule sorted_fold_insr) simp
  fix k
  show "filter (\<lambda>x. f k = f x) (stableBy (\<lambda>a b. f a < f b) xs) = filter (\<lambda>x. f k = f x) xs"
    by (simp add: stableBy_def filter_fold_insr flip: rev_filter)
qed


lemma sortKeyPass_eq: "sortKeyPass x g fs = Some (keySorted x g fs)"
proof -
  have n: "sortFilesStable (less_natural x) fs
             = Some (stableBy (\<lambda>a b. naturalLess x (toLower x (Name a)) (toLower x (Name b))) fs)"
    by (rule sortFilesStable_stableBy) (simp add: less_natural_def)
  have a: "sortFilesStable (less_name x) fs
             = Some (stableBy (\<lambda>a b. toLower x (Name a) < toLower x (Name b)) fs)"
    by (rule sortFilesStable_stableBy) (simp add: less_name_def)
  have s: "sortFilesStable less_size fs = Some (stableBy (\<lambda>a b. Size a < Size b) fs)"
    by (rule sortFilesStable_stableBy) (simp add: less_size_def)
  have t: "sortFilesStable less_time fs = Some (stableBy (\<lambda>a b. ModTime a < ModTime b) fs)"
    by (rule sortFilesStable_stableBy) (simp add: less_time_def)
  show ?thesis
    unfolding sortKeyPass_def keySorted_def
    by (simp add: n a s t stableBy_sort_key)
qed

lemma dirfirstPass_eq:
  "dirfirstPass g fs = Some (if dirfirst g then part IsDir fs else fs)"
proof -
  have "sortFilesStable less_dirfirst fs = Some (stableBy (\<lambda>a b. IsDir a \<and> \<not> IsDir b) fs)"
    by (rule sortFilesStable_stableBy) (auto simp: less_dirfirst_def)
  then show ?thesis
    by (simp add: dirfirstPass_def stableBy_partition part_def)
qed

lemma byte0_nonempty: "s \<noteq> [] \<Longrightarrow> \<exists>c. byte0 s = Some c"
  by (cases s) (simp_all add: byte0_def)

lemma less_hidden_eq:
  assumes "Name (fs ! i) \<noteq> []" "Name (fs ! j) \<noteq> []" "j < i"
  shows "less_hidden fs i j = Some (dot (fs ! i) \<and> \<not> dot (fs ! j))"
  using byte0_nonempty [OF assms(1)] byte0_nonempty [OF assms(2)] assms(3)
  by (auto simp: less_hidden_def dot_def)

lemma hiddenPass_eq:
  assumes "\<forall>f\<in>set fs. Name f \<noteq> []"
  shows "sortFilesStable less_hidden fs = Some (part dot fs)"
proof -
  have "sortFilesStable less_hidden fs = Some (stableBy (\<lambda>a b. dot a \<and> \<not> dot b) fs)"
  proof (rule sortFilesStable_stableBy)
    fix ys :: "fileT list" and i
    assume "set ys = set fs" "Suc i < length ys"
    then have "Name (ys ! Suc i) \<noteq> []" "Name (ys ! i) \<noteq> []"
      using assms by (metis nth_mem Suc_lessD)+
    then show "less_hidden ys (Suc i) i = Some (dot (ys ! Suc i) \<and> \<not> dot (ys ! i))"
      by (simp add: less_hidden_eq)
  qed
  then show ?thesis by (simp add: stableBy_partition part_def)
qed

lemma trimHidden_eq:
  "\<forall>f\<in>set fs. Name f \<noteq> [] \<Longrightarrow> \<forall>f\<in>set ds. dot f \<Longrightarrow> \<forall>f\<in>set fs. \<not> dot f \<Longrightarrow>
   trimHidden (ds @ fs) = Some fs"
proof (induction ds)
  case Nil
  show ?case
  proof (cases fs)
    case Nil
    then show ?thesis by simp
  next
    case (Cons f fs')
    then have "Name f \<noteq> []" "\<not> dot f" using Nil.prems by auto
    then show ?thesis
      using Cons byte0_nonempty [of "Name f"] by (auto simp: dot_def)
  qed
next
  case (Cons d ds)
  then show ?case by (auto simp: dot_def)
qed

lemma trimHidden_part:
  assumes "\<forall>f\<in>set fs. Name f \<noteq> []"
  shows "trimHidden (part dot fs) = Some (filter (\<lambda>f. \<not> dot f) fs)"
  unfolding part_def by (rule trimHidden_eq) (use assms in auto)

lemma set_part: "set (part p xs) = set xs"
  by (auto simp: part_def)

lemma mset_part: "mset (part p xs) = mset xs"
  by (simp add: part_def)

lemma filter_part_not: "filter (\<lambda>a. \<not> p a) (part p xs) = filter (\<lambda>a. \<not> p a) xs"
  by (simp add: part_def)

lemma mset_keySorted: "mset (keySorted x g fs) = mset fs"
  by (simp add: keySorted_def mset_stableBy)

lemma mset_sortedAll: "mset (sortedAll x g fs) = mset fs"
  by (simp add: sortedAll_def Let_def reversePass_def mset_part mset_keySorted)

lemma set_sortedAll: "set (sortedAll x g fs) = set fs"
  using mset_sortedAll [of x g fs] by (metis set_mset_mset)

lemma dir_sort_eq:
  assumes "hidden g \<or> (\<forall>f\<in>set (all d). Name f \<noteq> [])"
  shows "dir_sort x g d
           = Some (d\<lparr>fi := visibleOf g (sortedAll x g (all d)), all := sortedAll x g (all d)\<rparr>)"
proof (cases "hidden g")
  case True
  then show ?thesis
    by (simp add: dir_sort_def sortKeyPass_eq dirfirstPass_eq sortedAll_def visibleOf_def Let_def)
next
  case False
  let ?a2 = "reversePass g (keySorted x g (all d))"
  let ?a3 = "if dirfirst g then part IsDir ?a2 else ?a2"
  have "set ?a3 = set (all d)"
    using mset_keySorted [of x g "all d"]
    by (metis (full_types) set_mset_mset set_part reversePass_def set_rev)
  then have ne: "\<forall>f\<in>set ?a3. Name f \<noteq> []" using assms False by simp
  show ?thesis
    using False hiddenPass_eq [OF ne] trimHidden_part [OF ne]
    by (simp add: dir_sort_def sortKeyPass_eq dirfirstPass_eq sortedAll_def visibleOf_def
        Let_def filter_part_not)
qed


section \<open>Sorting twice\<close>


lemma filter_part: "filter q (part p xs) = part p (filter q xs)"
  by (simp add: part_def conj_commute)

lemma filter_part_same: "filter p (part p xs) = filter p xs"
  by (simp add: part_def)

lemma part_absorb:
  assumes T: "\<And>q ys. filter q (T ys) = T (filter q ys)"
  shows "part p (T (part p xs)) = part p (T xs)"
proof -
  have "filter p (T (part p xs)) = filter p (T xs)"
    by (simp add: T filter_part_same)
  moreover have "filter (\<lambda>a. \<not> p a) (T (part p xs)) = filter (\<lambda>a. \<not> p a) (T xs)"
    by (simp add: T filter_part_not)
  ultimately show ?thesis by (simp add: part_def)
qed

lemma keySorted_filter:
  fixes nk :: "string \<Rightarrow> 'k::linorder"
  assumes "sortby g = ''natural'' \<longrightarrow> (\<forall>a b. naturalLess x a b = (nk a < nk b))"
  shows "filter q (keySorted x g fs) = keySorted x g (filter q fs)"
proof (cases "sortby g = ''natural''")
  case True
  then have "\<And>zs :: fileT list. stableBy (\<lambda>a b. naturalLess x (toLower x (Name a)) (toLower x (Name b))) zs
           = sort_key (\<lambda>f. nk (toLower x (Name f))) zs"
    using assms stableBy_sort_key [of "\<lambda>f. nk (toLower x (Name f))"] by simp
  with True show ?thesis by (simp add: keySorted_def filter_sort)
next
  case False
  then show ?thesis by (simp add: keySorted_def filter_sort)
qed

lemma keySorted_idem:
  fixes nk :: "string \<Rightarrow> 'k::linorder"
  assumes "sortby g = ''natural'' \<longrightarrow> (\<forall>a b. naturalLess x a b = (nk a < nk b))"
  shows "keySorted x g (keySorted x g fs) = keySorted x g fs"
proof (cases "sortby g = ''natural''")
  case True
  then have "\<And>zs :: fileT list. stableBy (\<lambda>a b. naturalLess x (toLower x (Name a)) (toLower x (Name b))) zs
           = sort_key (\<lambda>f. nk (toLower x (Name f))) zs"
    using assms stableBy_sort_key [of "\<lambda>f. nk (toLower x (Name f))"] by simp
  with True show ?thesis by (simp add: keySorted_def sort_key_id_if_sorted)
next
  case False
  then show ?thesis by (simp add: keySorted_def sort_key_id_if_sorted)
qed

lemma sortedAll_idem:
  fixes nk :: "string \<Rightarrow> 'k::linorder"
  assumes nat: "sortby g = ''natural'' \<longrightarrow> (\<forall>a b. naturalLess x a b = (nk a < nk b))"
    and rv: "\<not> reverse g"
  shows "sortedAll x g (sortedAll x g fs) = sortedAll x g fs"
proof -
  let ?K = "keySorted x g"
  have K: "\<And>q ys. filter q (?K ys) = ?K (filter q ys)"
    using keySorted_filter [OF nat] by simp
  have KK: "?K (?K fs) = ?K fs" by (rule keySorted_idem [OF nat])
  have D: "part IsDir (?K (part IsDir (?K fs))) = part IsDir (?K fs)"
    using part_absorb [of ?K IsDir "?K fs", OF K] KK by simp
  have H: "part dot (?K (part dot (?K fs))) = part dot (?K fs)"
    using part_absorb [of ?K dot "?K fs", OF K] KK by simp
  have DK: "\<And>q ys. filter q (part IsDir (?K ys)) = part IsDir (?K (filter q ys))"
    by (simp add: filter_part K)
  have HD: "part dot (part IsDir (?K (part dot (part IsDir (?K fs))))) = part dot (part IsDir (?K fs))"
    using part_absorb [of "\<lambda>ys. part IsDir (?K ys)" dot "part IsDir (?K fs)", OF DK] D by simp
  show ?thesis
    using rv KK D H HD by (simp add: sortedAll_def Let_def reversePass_def)
qed

section \<open>Sorting twice with the reversal on\<close>

lemma filter_same_key:
  "distinct zs \<Longrightarrow> inj_on g (set zs) \<Longrightarrow> z \<in> set zs \<Longrightarrow> filter (\<lambda>x. g z = g x) zs = [z]"
proof (induction zs)
  case Nil
  then show ?case by simp
next
  case (Cons a zs)
  show ?case
  proof (cases "z = a")
    case True
    have "filter (\<lambda>x. g a = g x) zs = []"
      using Cons.prems(1,2) by (auto simp: filter_empty_conv inj_on_def)
    with True show ?thesis by simp
  next
    case False
    then have "z \<in> set zs" using Cons.prems(3) by simp
    moreover have "g z \<noteq> g a" using False Cons.prems(2,3) by (auto simp: inj_on_def)
    moreover have "inj_on g (set zs)" using Cons.prems(2) by (simp add: inj_on_def)
    ultimately show ?thesis using Cons.IH Cons.prems(1) by simp
  qed
qed

lemma tiedPair_key: "tiedPair (\<lambda>a b. k a = k b) ys \<longleftrightarrow> \<not> distinct (map k ys)"
  by (induction ys) (auto simp: list_ex_iff image_iff)

lemma tiedPair_cong: "(\<And>a b. c a b = c' a b) \<Longrightarrow> tiedPair c ys = tiedPair c' ys"
  by (induction ys) (auto simp: list_ex_iff)

lemma sort_key_mset_cong:
  fixes k :: "'a \<Rightarrow> 'k::linorder"
  assumes "distinct (map k xs)" "mset ys = mset xs"
  shows "sort_key k ys = sort_key k xs"
proof (rule properties_for_sort_key)
  show "mset (sort_key k xs) = mset ys" using assms(2) by simp
  show "sorted (map k (sort_key k xs))" by simp
  fix a assume a: "a \<in> set (sort_key k xs)"
  have dx: "distinct xs" and inj: "inj_on k (set xs)" using assms(1) by (simp_all add: distinct_map)
  have sy: "set ys = set xs" using assms(2) by (metis set_mset_mset)
  have dy: "distinct ys" using assms(2) dx by (metis mset_eq_imp_distinct_iff)
  have 1: "filter (\<lambda>x. k a = k x) (sort_key k xs) = [a]"
    by (rule filter_same_key) (use a dx inj in auto)
  have 2: "filter (\<lambda>x. k a = k x) ys = [a]"
    by (rule filter_same_key) (use a dy inj sy in auto)
  show "filter (\<lambda>x. k a = k x) (sort_key k xs) = filter (\<lambda>x. k a = k x) ys"
    using 1 2 by simp
qed

lemma rev_fixed_distinct: "distinct L \<Longrightarrow> rev L = L \<Longrightarrow> length L \<le> 1"
proof (cases L)
  case Nil
  then show ?thesis by simp
next
  case (Cons x xs)
  assume d: "distinct L" and r: "rev L = L"
  show ?thesis
  proof (cases xs)
    case Nil
    with Cons show ?thesis by simp
  next
    case (Cons y ys)
    have "last L = x" using r \<open>L = x # xs\<close> by (metis last_snoc rev.simps(2))
    moreover have "last L \<in> set xs" using \<open>L = x # xs\<close> Cons by simp
    ultimately show ?thesis using d \<open>L = x # xs\<close> by simp
  qed
qed

lemma sort_rev_sort_same:
  fixes k :: "'a \<Rightarrow> 'k::linorder"
  assumes "distinct (map k ys)"
  shows "sort_key k (rev (sort_key k ys)) = sort_key k ys"
  by (rule sort_key_mset_cong [OF assms]) simp

lemma sort_rev_sort_differs:
  fixes k :: "'a \<Rightarrow> 'k::linorder"
  assumes "distinct ys" "\<not> distinct (map k ys)"
  shows "sort_key k (rev (sort_key k ys)) \<noteq> sort_key k ys"
proof
  assume eq: "sort_key k (rev (sort_key k ys)) = sort_key k ys"
  from assms obtain a b where ab: "a \<in> set ys" "b \<in> set ys" "a \<noteq> b" "k a = k b"
    by (auto simp: distinct_map inj_on_def)
  define L where "L = filter (\<lambda>z. k z = k a) ys"
  have "filter (\<lambda>z. k z = k a) (sort_key k (rev (sort_key k ys))) = rev L"
    unfolding L_def by (simp add: sort_key_stable flip: rev_filter)
  then have "rev L = L" using eq by (simp add: sort_key_stable L_def)
  moreover have dL: "distinct L" using assms(1) by (simp add: L_def)
  ultimately have len: "length L \<le> 1" by (rule rev_fixed_distinct [rotated])
  have la: "a \<in> set L" and lb: "b \<in> set L" using ab by (simp_all add: L_def)
  show False
  proof (cases L)
    case Nil
    with la show False by simp
  next
    case (Cons x xs)
    with len have "xs = []" by simp
    with Cons la lb have "a = x" "b = x" by simp_all
    with ab(3) show False by simp
  qed
qed

lemma visibleOf_sortedAll:
  fixes k :: "fileT \<Rightarrow> 'k::linorder"
  assumes "\<And>ys. keySorted x g ys = sort_key k ys"
  shows "visibleOf g (sortedAll x g fs) = viewOf g k (visibleOf g fs)"
proof (cases "hidden g")
  case True
  then show ?thesis by (simp add: visibleOf_def sortedAll_def viewOf_def Let_def assms)
next
  case False
  then show ?thesis
    by (simp add: visibleOf_def sortedAll_def viewOf_def Let_def assms filter_part_not
        filter_part reversePass_def filter_sort flip: rev_filter)
qed

lemma visibleOf_idem: "visibleOf g (visibleOf g fs) = visibleOf g fs"
  by (simp add: visibleOf_def)

lemma distinct_by_class:
  "distinct (map (\<lambda>f. (k f, IsDir f)) vs)
     \<longleftrightarrow> distinct (map k (filter IsDir vs)) \<and> distinct (map k (filter (\<lambda>f. \<not> IsDir f) vs))"
  by (induction vs) (auto simp: image_iff)

lemma distinct_no_class:
  "distinct (map (\<lambda>f. (k f, False)) vs) \<longleftrightarrow> distinct (map k vs)"
  by (induction vs) (auto simp: image_iff)

lemma viewOf_rev_plain:
  fixes k :: "fileT \<Rightarrow> 'k::linorder"
  assumes "reverse g" "\<not> dirfirst g"
  shows "viewOf g k ys = rev (sort_key k ys)"
  using assms by (simp add: viewOf_def reversePass_def)

lemma viewOf_rev_dirfirst:
  fixes k :: "fileT \<Rightarrow> 'k::linorder"
  assumes "reverse g" "dirfirst g"
  shows "viewOf g k ys = rev (sort_key k (filter IsDir ys))
                           @ rev (sort_key k (filter (\<lambda>f. \<not> IsDir f) ys))"
  using assms by (simp add: viewOf_def reversePass_def part_def filter_sort flip: rev_filter)

lemma viewOf_twice_dirfirst:
  fixes k :: "fileT \<Rightarrow> 'k::linorder"
  assumes "reverse g" "dirfirst g"
  shows "viewOf g k (viewOf g k ys)
           = rev (sort_key k (rev (sort_key k (filter IsDir ys))))
             @ rev (sort_key k (rev (sort_key k (filter (\<lambda>f. \<not> IsDir f) ys))))"
proof -
  let ?D = "filter IsDir ys" and ?N = "filter (\<lambda>f. \<not> IsDir f) ys"
  have d: "filter IsDir (viewOf g k ys) = rev (sort_key k ?D)"
    unfolding viewOf_rev_dirfirst [OF assms]
    by (simp add: filter_sort flip: rev_filter)
  have n: "filter (\<lambda>f. \<not> IsDir f) (viewOf g k ys) = rev (sort_key k ?N)"
    unfolding viewOf_rev_dirfirst [OF assms]
    by (simp add: filter_sort flip: rev_filter)
  show ?thesis
    unfolding viewOf_rev_dirfirst [OF assms, of k "viewOf g k ys"] d n ..
qed

lemma viewOf_twice_same:
  fixes k :: "fileT \<Rightarrow> 'k::linorder"
  assumes "reverse g" "distinct (map (\<lambda>f. (k f, dirfirst g \<and> IsDir f)) vs)"
  shows "viewOf g k (viewOf g k vs) = viewOf g k vs"
proof (cases "dirfirst g")
  case True
  with assms(2) have "distinct (map k (filter IsDir vs))"
    "distinct (map k (filter (\<lambda>f. \<not> IsDir f) vs))"
    by (simp_all add: distinct_by_class)
  then show ?thesis
    unfolding viewOf_twice_dirfirst [OF assms(1) True] viewOf_rev_dirfirst [OF assms(1) True]
    by (simp add: sort_rev_sort_same)
next
  case False
  with assms(2) have "distinct (map k vs)" by (simp add: distinct_no_class)
  then show ?thesis
    unfolding viewOf_rev_plain [OF assms(1) False] by (simp add: sort_rev_sort_same)
qed

lemma viewOf_twice_differs:
  fixes k :: "fileT \<Rightarrow> 'k::linorder"
  assumes "reverse g" "distinct vs" "\<not> distinct (map (\<lambda>f. (k f, dirfirst g \<and> IsDir f)) vs)"
  shows "viewOf g k (viewOf g k vs) \<noteq> viewOf g k vs"
proof (cases "dirfirst g")
  case True
  let ?D = "filter IsDir vs" and ?N = "filter (\<lambda>f. \<not> IsDir f) vs"
  from assms(3) True have "\<not> distinct (map k ?D) \<or> \<not> distinct (map k ?N)"
    by (simp add: distinct_by_class)
  moreover have "distinct ?D" "distinct ?N" using assms(2) by simp_all
  ultimately have "sort_key k (rev (sort_key k ?D)) \<noteq> sort_key k ?D
                 \<or> sort_key k (rev (sort_key k ?N)) \<noteq> sort_key k ?N"
    using sort_rev_sort_differs by blast
  then show ?thesis
    unfolding viewOf_twice_dirfirst [OF assms(1) True] viewOf_rev_dirfirst [OF assms(1) True]
    by simp
next
  case False
  with assms(3) have "\<not> distinct (map k vs)" by (simp add: distinct_no_class)
  from sort_rev_sort_differs [OF assms(2) this] show ?thesis
    unfolding viewOf_rev_plain [OF assms(1) False] by simp
qed

lemma visible_twice_by_key:
  fixes k :: "fileT \<Rightarrow> 'k::linorder"
  assumes H1: "\<And>ys. keySorted x g ys = sort_key k ys"
    and H2: "\<And>a b. keyTie x g a b = (k a = k b)"
    and rv: "reverse g"
  shows "(\<not> flipping x g fs \<longrightarrow>
            visibleOf g (sortedAll x g (sortedAll x g fs)) = visibleOf g (sortedAll x g fs))
       \<and> (distinct fs \<and> flipping x g fs \<longrightarrow>
            visibleOf g (sortedAll x g (sortedAll x g fs)) \<noteq> visibleOf g (sortedAll x g fs))"
proof -
  let ?vs = "visibleOf g fs"
  let ?k' = "\<lambda>f. (k f, dirfirst g \<and> IsDir f)"
  have v1: "visibleOf g (sortedAll x g fs) = viewOf g k ?vs"
    by (rule visibleOf_sortedAll [OF H1])
  have v2: "visibleOf g (sortedAll x g (sortedAll x g fs)) = viewOf g k (viewOf g k ?vs)"
    using visibleOf_sortedAll [OF H1, of "sortedAll x g fs"] v1 by simp
  have c: "\<And>a b. (keyTie x g a b \<and> sameClass g a b) = (?k' a = ?k' b)"
    by (auto simp: H2 sameClass_def)
  have fl: "flipping x g fs \<longleftrightarrow> \<not> distinct (map ?k' ?vs)"
    using rv tiedPair_cong [of "\<lambda>a b. keyTie x g a b \<and> sameClass g a b" "\<lambda>a b. ?k' a = ?k' b" ?vs, OF c]
      tiedPair_key [of ?k' ?vs]
    by (simp add: flipping_def)
  have dv: "distinct fs \<Longrightarrow> distinct ?vs" by (simp add: visibleOf_def)
  show ?thesis
    unfolding v1 v2 fl
    using viewOf_twice_same [OF rv, of k ?vs] viewOf_twice_differs [OF rv, of ?vs k] dv
    by blast
qed

section \<open>Cursor movement keeps the invariants\<close>


lemma i64_id: "- (2 ^ 63) \<le> n \<Longrightarrow> n < 2 ^ 63 \<Longrightarrow> i64 n = n"
  by (simp add: i64_def)

lemma sub64_id: "- (2 ^ 62) \<le> a \<Longrightarrow> a < 2 ^ 62 \<Longrightarrow> - (2 ^ 62) \<le> b \<Longrightarrow> b < 2 ^ 62 \<Longrightarrow> sub64 a b = a - b"
  by (simp add: sub64_def i64_id)

lemma add64_id: "- (2 ^ 62) \<le> a \<Longrightarrow> a < 2 ^ 62 \<Longrightarrow> - (2 ^ 62) \<le> b \<Longrightarrow> b < 2 ^ 62 \<Longrightarrow> add64 a b = a + b"
  by (simp add: add64_def i64_id)

lemma half_up:
  assumes h: "1 \<le> h" "h < 2 ^ 62"
  shows "sub64 (add64 (quot64 h 2) (rem64 h 2)) 1 = h div 2 + h mod 2 - 1"
proof -
  have q: "quot64 h 2 = h div 2" using h by (simp add: quot64_def i64_id)
  have r: "rem64 h 2 = h mod 2" using h by (simp add: rem64_def)
  have b: "0 \<le> h div 2" "h div 2 < 2 ^ 62" "0 \<le> h mod 2" "h mod 2 < 2" using h by auto
  have "add64 (h div 2) (h mod 2) = h div 2 + h mod 2"
    using b by (intro add64_id) auto
  moreover have "h div 2 + h mod 2 \<le> h" using h(1) by presburger
  ultimately show ?thesis unfolding q r using b h by (simp add: sub64_id)
qed



lemma dir_up_inv:
  assumes "listingInv h d" "cursorArgs g h dist d"
  shows "listingInv h (dir_up g dist d)"
proof (cases "ind d = 0")
  case True
  then show ?thesis using assms by (simp add: dir_up_def)
next
  case False
  from assms(1) False have b: "0 < ind d" "0 \<le> pos d" "pos d \<le> ind d"
      "pos d \<le> h - 1" "fi d \<noteq> []" "ind d < len (fi d)"
    by (auto simp: listingInv_def split: if_splits)
  from assms(2) have a: "0 \<le> dist" "0 \<le> scrolloff g" "scrolloff g < h"
    and big: "dist < 2 ^ 62" "len (fi d) < 2 ^ 62"
    by (auto simp: cursorArgs_def)
  have s1: "sub64 (ind d) dist = ind d - dist"
    by (rule sub64_id) (use a b big in linarith)+
  have s2: "sub64 (pos d) dist = pos d - dist"
    by (rule sub64_id) (use a b big in linarith)+
  define i where "i = max 0 (ind d - dist)"
  define p where "p = max (pos d - dist) (min (scrolloff g) i)"
  have eq: "dir_up g dist d = d\<lparr>ind := i, pos := p\<rparr>"
    using False by (simp add: dir_up_def Let_def s1 s2 i_def p_def)
  have i: "0 \<le> i" "i \<le> ind d" "ind d - dist \<le> i" using a b by (auto simp: i_def)
  have p: "0 \<le> p" "p \<le> i" "p \<le> h - 1"
    using a b i by (auto simp: p_def)
  show ?thesis
    unfolding eq using b i p by (simp add: listingInv_def)
qed



lemma dir_down_inv:
  assumes "listingInv h d" "cursorArgs g h dist d"
  shows "listingInv h (dir_down g h dist d)"
proof (cases "ind d \<ge> len (fi d) - 1")
  case True
  then show ?thesis using assms by (simp add: dir_down_def)
next
  case False
  from assms(1) have b: "0 \<le> ind d" "0 \<le> pos d" "pos d \<le> ind d" "pos d \<le> h - 1"
    by (auto simp: listingInv_def split: if_splits)
  from assms(2) have a: "0 \<le> dist" "0 \<le> scrolloff g" "1 \<le> h"
    and big: "dist < 2 ^ 62" "len (fi d) < 2 ^ 62" "h < 2 ^ 62"
    by (auto simp: cursorArgs_def)
  have ne: "fi d \<noteq> []" using False b by (auto simp: len_def)
  define m where "m = len (fi d) - 1"
  define i where "i = min m (ind d + dist)"
  define e0 where "e0 = min (scrolloff g) (m - i)"
  define e where "e = min e0 (h div 2 + h mod 2 - 1)"
  define p where "p = min (min (pos d + dist) (h - e - 1)) m"
  have mb: "ind d < m" "m < 2 ^ 62" using False big by (auto simp: m_def)
  have s1: "add64 (ind d) dist = ind d + dist"
    by (rule add64_id) (use a b big mb in linarith)+
  have s2: "add64 (pos d) dist = pos d + dist"
    by (rule add64_id) (use a b big mb in linarith)+
  have ib: "0 \<le> i" "i \<le> m" "ind d \<le> i" "i \<le> ind d + dist"
    using a b mb by (auto simp: i_def)
  have s3: "sub64 m i = m - i"
    by (rule sub64_id) (use ib mb in linarith)+
  have hb: "0 \<le> h div 2 + h mod 2 - 1" "h div 2 + h mod 2 - 1 \<le> h - 1"
    using a(3) by presburger+
  have e0b: "0 \<le> e0" using a ib by (auto simp: e0_def)
  have eb: "0 \<le> e" "e \<le> h - 1" using e0b hb by (auto simp: e_def)
  have s4: "sub64 h e = h - e"
    by (rule sub64_id) (use eb a big in linarith)+
  have s5: "sub64 (h - e) 1 = h - e - 1"
    by (rule sub64_id) (use eb a big in linarith)+
  have eq: "dir_down g h dist d = d\<lparr>ind := i, pos := p\<rparr>"
    using False a(3) big(3)
    by (simp add: dir_down_def Let_def s1 s2 half_up flip: m_def)
       (simp add: s3 s4 s5 p_def flip: i_def e0_def e_def)
  have pi: "p \<le> i"
    unfolding p_def i_def using b(3) by auto
  have pb: "0 \<le> p" "p \<le> h - 1"
    using a(1) b(1,2) eb mb(1) by (auto simp: p_def)
  show ?thesis
    unfolding eq using ne ib pi pb mb(1) by (simp add: listingInv_def m_def)
qed



lemma findName_less: "findName name fs = Some i \<Longrightarrow> i < length fs"
  by (induction fs arbitrary: i) (auto split: if_splits)

lemma dir_find_inv:
  assumes "listingInv h d" "cursorArgs g h dist d"
  shows "\<exists>d'. dir_find g name h d = Some d' \<and> listingInv h d'"
proof (cases "fi d = []")
  case True
  then show ?thesis using assms(2) by (simp add: dir_find_def len_def listingInv_def cursorArgs_def)
next
  case False
  from assms(1) False have b: "0 \<le> ind d" "ind d < len (fi d)"
    by (auto simp: listingInv_def)
  from assms(2) have a: "0 \<le> scrolloff g" "scrolloff g < h" "1 \<le> h"
    and big: "len (fi d) < 2 ^ 62" "h < 2 ^ 62"
    by (auto simp: cursorArgs_def)
  have i1: "min (ind d) (len (fi d) - 1) = ind d" using b by simp
  define i2 where "i2 = (if Name (fi d ! nat (ind d)) \<noteq> name
                    then (case findName name (fi d) of Some i \<Rightarrow> int i | None \<Rightarrow> ind d)
                    else ind d)"
  have i2b: "0 \<le> i2" "i2 < len (fi d)"
    using b by (auto simp: i2_def len_def split: option.splits dest: findName_less)
  define e where "e = min (scrolloff g) (len (fi d) - i2 - 1)"
  have s1: "sub64 (len (fi d)) i2 = len (fi d) - i2"
    by (rule sub64_id) (use i2b big in linarith)+
  have s2: "sub64 (len (fi d) - i2) 1 = len (fi d) - i2 - 1"
    by (rule sub64_id) (use i2b big in linarith)+
  have eb: "0 \<le> e" "e \<le> h - 1" using a i2b by (auto simp: e_def)
  have s3: "sub64 h e = h - e"
    by (rule sub64_id) (use eb a big in linarith)+
  have s4: "sub64 (h - e) 1 = h - e - 1"
    by (rule sub64_id) (use eb a big in linarith)+
  have nz: "len (fi d) \<noteq> 0" using False by (simp add: len_def)
  have eq: "dir_find g name h d = Some (d\<lparr>ind := i2, pos := min i2 (h - e - 1)\<rparr>)"
    using nz b(1)
    by (simp add: dir_find_def Let_def i1 flip: i2_def) (simp add: s1 s2 s3 s4 flip: e_def)
  have "listingInv h (d\<lparr>ind := i2, pos := min i2 (h - e - 1)\<rparr>)"
    using False i2b eb by (simp add: listingInv_def)
  then show ?thesis using eq by simp
qed

lemma dir_top_inv:
  assumes "listingInv h d" "1 \<le> h"
  shows "listingInv h (dir_top d)"
  using assms by (auto simp: listingInv_def dir_top_def len_def)

lemma dir_bot_inv:
  assumes "fi d \<noteq> []" "1 \<le> h" "h < 2 ^ 62"
  shows "listingInv h (dir_bot h d)"
proof -
  have s: "sub64 h 1 = h - 1"
    by (rule sub64_id) (use assms in linarith)+
  have "0 < len (fi d)" using assms(1) by (simp add: len_def)
  then show ?thesis
    using assms by (simp add: listingInv_def dir_bot_def Let_def s)
qed

section \<open>What sort does to a Listing\<close>

lemmas ex_defs = exA_def exB_def exH_def exFile_def exExt_def exOpts_def exDir_def mkFile_def
  fileInfo.extend_def fileT.fields_def


lemma sift_mset:
  "j < length xs \<Longrightarrow> sift lt j xs = Some ys \<Longrightarrow> mset ys = mset xs"
proof (induction j arbitrary: xs)
  case 0
  then show ?case by simp
next
  case (Suc j)
  have sw: "mset (swap (Suc j) j xs) = mset xs" "length (swap (Suc j) j xs) = length xs"
    using Suc.prems(1) by (simp_all add: swap_def mset_swap)
  show ?case
  proof (cases "lt xs (Suc j) j")
    case None
    with Suc.prems show ?thesis by simp
  next
    case (Some b)
    show ?thesis
    proof (cases b)
      case True
      with Some Suc.prems have "sift lt j (swap (Suc j) j xs) = Some ys" by simp
      moreover have "j < length (swap (Suc j) j xs)" using Suc.prems(1) sw(2) by simp
      ultimately show ?thesis using Suc.IH sw(1) by metis
    next
      case False
      with Some Suc.prems show ?thesis by simp
    qed
  qed
qed

lemma insertionSort_mset:
  "\<forall>i\<in>set is. i < length xs \<Longrightarrow> insertionSort lt is xs = Some ys \<Longrightarrow> mset ys = mset xs"
proof (induction "is" arbitrary: xs)
  case Nil
  then show ?case by simp
next
  case (Cons i "is")
  from Cons.prems(2) obtain zs where z: "sift lt i xs = Some zs" "insertionSort lt is zs = Some ys"
    by (auto split: option.splits)
  have m: "mset zs = mset xs" using sift_mset [OF _ z(1)] Cons.prems(1) by simp
  then have "length zs = length xs" by (metis size_mset)
  then have "\<forall>i\<in>set is. i < length zs" using Cons.prems(1) by simp
  from Cons.IH [OF this z(2)] m show ?case by simp
qed

lemma sortFilesStable_mset: "sortFilesStable lt xs = Some ys \<Longrightarrow> mset ys = mset xs"
  unfolding sortFilesStable_def by (rule insertionSort_mset) auto

lemma dir_sort_all_mset:
  assumes "dir_sort x g d = Some d'"
  shows "mset (all d') = mset (all d)"
proof -
  from assms obtain a1 a3 where
    a1: "sortKeyPass x g (all d) = Some a1" and a3: "dirfirstPass g (reversePass g a1) = Some a3"
    by (auto simp: dir_sort_def split: option.splits)
  have m1: "mset a1 = mset (all d)"
    using a1 by (auto simp: sortKeyPass_def split: if_splits dest: sortFilesStable_mset)
  have m3: "mset a3 = mset a1"
    using a3 by (auto simp: dirfirstPass_def reversePass_def split: if_splits dest: sortFilesStable_mset)
  show ?thesis
  proof (cases "hidden g")
    case True
    with assms a1 a3 have "all d' = a3" by (auto simp: dir_sort_def)
    with m1 m3 show ?thesis by simp
  next
    case False
    with assms a1 a3 obtain a4 where "sortFilesStable less_hidden a3 = Some a4" "all d' = a4"
      by (auto simp: dir_sort_def split: option.splits)
    with m1 m3 show ?thesis using sortFilesStable_mset by fastforce
  qed
qed

lemma dir_sort_from_all:
  assumes "all d2 = all d"
  shows "dir_sort x g d2 = map_option (\<lambda>r. d2\<lparr>fi := fi r, all := all r\<rparr>) (dir_sort x g d)"
  using assms by (simp add: dir_sort_def split: option.splits)


text \<open>
  Claim C2, as the code has it. \<open>sort\<close> works in place on the array that \<open>all\<close> names,
  so the order of \<open>all\<close> is not kept: what is kept is its content, entry for entry
  (the multiset of entries). \<open>visible\<close> is computed from \<open>all\<close> alone: two Listings
  with the same \<open>all\<close> get the same \<open>visible\<close> and the same \<open>all\<close>, whatever their
  \<open>visible\<close> and cursor were before.
\<close>
theorem sort_keeps_entries_of_all:
  assumes "dir_sort x g d = Some d'"
  shows "mset (all d') = mset (all d) \<and>
         (\<forall>d2. all d2 = all d \<longrightarrow>
            map_option fi (dir_sort x g d2) = Some (fi d') \<and>
            map_option all (dir_sort x g d2) = Some (all d'))"
proof (intro conjI allI impI)
  show "mset (all d') = mset (all d)" by (rule dir_sort_all_mset [OF assms])
next
  fix d2 :: dir assume "all d2 = all d"
  from dir_sort_from_all [OF this, of x g] assms
  show "map_option fi (dir_sort x g d2) = Some (fi d')" by simp
next
  fix d2 :: dir assume "all d2 = all d"
  from dir_sort_from_all [OF this, of x g] assms
  show "map_option all (dir_sort x g d2) = Some (all d')" by simp
qed

text \<open>The theorem at work on the Listing \<open>[b.txt, a.txt]\<close> sorted by name.\<close>

theorem sort_keeps_entries_of_all_witness:
  "dir_sort exExt (exOpts ''name'' False False True) (exDir [exB, exA])
     = Some ((exDir [exB, exA])\<lparr>fi := [exA, exB], all := [exA, exB]\<rparr>)
   \<and> mset [exA, exB] = mset (all (exDir [exB, exA]))"
proof -
  have h: "dir_sort exExt (exOpts ''name'' False False True) (exDir [exB, exA])
     = Some ((exDir [exB, exA])\<lparr>fi := [exA, exB], all := [exA, exB]\<rparr>)"
    by code_simp
  from sort_keeps_entries_of_all [OF h] h show ?thesis by simp
qed

text \<open>Claim C2 as stated fails: sorting \<open>[b.txt, a.txt]\<close> by name changes the order
  of \<open>all\<close>.\<close>

theorem sort_reorders_all_counterexample:
  "map_option all (dir_sort exExt (exOpts ''name'' False False True) (exDir [exB, exA]))
     \<noteq> Some (all (exDir [exB, exA]))"
  by code_simp

text \<open>Claim C3 as stated fails: with \<open>reverse\<close> on and two entries of the same size
  sorted by size, each call of \<open>sort\<close> flips the two, since the stable sort keeps the
  order that the previous call left in \<open>all\<close> and the reversal turns it around.\<close>

theorem sort_twice_counterexample:
  "map_option fi (Option.bind (dir_sort exExt (exOpts ''size'' True False True) (exDir [exA, exB]))
                    (dir_sort exExt (exOpts ''size'' True False True)))
     \<noteq> map_option fi (dir_sort exExt (exOpts ''size'' True False True) (exDir [exA, exB]))"
  by code_simp

text \<open>
  Claim C3, amended. Sorting a Listing twice gives the same \<open>visible\<close> as sorting it
  once, for every sort key, directories-first flag and hidden flag, unless the
  reversal is on and two visible entries tie under the sort key without being
  separated by the directories-first pass. With the reversal off the whole Listing
  (\<open>visible\<close> and \<open>all\<close>) is the same. In the excepted case, for a Listing without
  repeated entries, the second call does change \<open>visible\<close>. Names are not empty when
  hidden entries are filtered, and for the key \<open>natural\<close> the comparison
  \<^verbatim>\<open>naturalLess\<close> is the order of some key \<open>nk\<close> of the names.
\<close>

theorem sort_idempotent_unless_reversed_tie:
  fixes nk :: "string \<Rightarrow> 'k::linorder"
  assumes ne: "hidden g \<or> (\<forall>f\<in>set (all d). Name f \<noteq> [])"
    and nat: "sortby g = ''natural'' \<longrightarrow> (\<forall>a b. naturalLess x a b = (nk a < nk b))"
  shows "\<exists>d1 d2. dir_sort x g d = Some d1 \<and> dir_sort x g d1 = Some d2
           \<and> (\<not> reverse g \<longrightarrow> d2 = d1)
           \<and> (\<not> flipping x g (all d) \<longrightarrow> fi d2 = fi d1)
           \<and> (distinct (all d) \<and> flipping x g (all d) \<longrightarrow> fi d2 \<noteq> fi d1)"
proof -
  let ?A = "sortedAll x g (all d)"
  let ?d1 = "d\<lparr>fi := visibleOf g ?A, all := ?A\<rparr>"
  let ?B = "sortedAll x g ?A"
  let ?d2 = "?d1\<lparr>fi := visibleOf g ?B, all := ?B\<rparr>"
  have 1: "dir_sort x g d = Some ?d1" by (rule dir_sort_eq [OF ne])
  have "hidden g \<or> (\<forall>f\<in>set (all ?d1). Name f \<noteq> [])"
    using ne by (simp add: set_sortedAll)
  from dir_sort_eq [OF this, of x]
  have 2: "dir_sort x g ?d1 = Some ?d2" by simp
  have 3: "\<not> reverse g \<longrightarrow> ?d2 = ?d1"
    using sortedAll_idem [OF nat, of "all d"] by simp
  have 4: "(\<not> flipping x g (all d) \<longrightarrow> visibleOf g ?B = visibleOf g ?A)
         \<and> (distinct (all d) \<and> flipping x g (all d) \<longrightarrow> visibleOf g ?B \<noteq> visibleOf g ?A)"
  proof (cases "reverse g")
    case False
    then show ?thesis
      using sortedAll_idem [OF nat, of "all d"] by (simp add: flipping_def)
  next
    case True
    consider (n) "sortby g = ''natural''" | (a) "sortby g = ''name''" | (s) "sortby g = ''size''"
      | (t) "sortby g = ''time''"
      | (o) "sortby g \<noteq> ''natural''" "sortby g \<noteq> ''name''" "sortby g \<noteq> ''size''"
            "sortby g \<noteq> ''time''"
      by blast
    then show ?thesis
    proof cases
      case n
      have h: "\<And>a b. naturalLess x a b = (nk a < nk b)" using nat n by simp
      show ?thesis
      proof (rule visible_twice_by_key [where k = "\<lambda>f. nk (toLower x (Name f))", OF _ _ True])
        fix ys :: "fileT list"
        show "keySorted x g ys = sort_key (\<lambda>f. nk (toLower x (Name f))) ys"
          using n stableBy_sort_key [of "\<lambda>f. nk (toLower x (Name f))" ys]
          by (simp add: keySorted_def h)
      next
        fix a b :: fileT
        show "keyTie x g a b = (nk (toLower x (Name a)) = nk (toLower x (Name b)))"
          using n by (auto simp: keyTie_def h)
      qed
    next
      case a
      show ?thesis
        by (rule visible_twice_by_key [where k = "\<lambda>f. toLower x (Name f)", OF _ _ True])
           (simp_all add: a keySorted_def keyTie_def)
    next
      case s
      show ?thesis
        by (rule visible_twice_by_key [where k = Size, OF _ _ True])
           (simp_all add: s keySorted_def keyTie_def)
    next
      case t
      show ?thesis
        by (rule visible_twice_by_key [where k = ModTime, OF _ _ True])
           (simp_all add: t keySorted_def keyTie_def)
    next
      case o
      show ?thesis
        by (rule visible_twice_by_key [where k = "\<lambda>f. ()", OF _ _ True])
           (simp_all add: o keySorted_def keyTie_def sort_key_const)
    qed
  qed
  have 5: "fi ?d2 = visibleOf g ?B" "fi ?d1 = visibleOf g ?A" by simp_all
  have 6: "\<not> flipping x g (all d) \<longrightarrow> fi ?d2 = fi ?d1"
    and 7: "distinct (all d) \<and> flipping x g (all d) \<longrightarrow> fi ?d2 \<noteq> fi ?d1"
    unfolding 5 using 4 by blast+
  show ?thesis
    by (intro exI [of _ ?d1] exI [of _ ?d2] conjI) (rule 1 2 3 6 7)+
qed

lemma ex_flip:
  "\<not> flipping exExt (exOpts ''natural'' True True False) (all (exDir [exB, exH, exA]))"
  "flipping exExt (exOpts ''size'' True False True) (all (exDir [exA, exB]))"
  "distinct (all (exDir [exA, exB]))"
  by (simp_all add: flipping_def keyTie_def sameClass_def visibleOf_def dot_def byte0_def ex_defs)

theorem sort_idempotent_unless_reversed_tie_witness:
  "list_all (\<lambda>f. Name f \<noteq> []) (all (exDir [exB, exH, exA]))
   \<and> (\<forall>a b. naturalLess exExt a b = (a < b))
   \<and> reverse (exOpts ''natural'' True True False)
   \<and> \<not> flipping exExt (exOpts ''natural'' True True False) (all (exDir [exB, exH, exA]))
   \<and> (\<exists>d1 d2. dir_sort exExt (exOpts ''natural'' True True False) (exDir [exB, exH, exA]) = Some d1
          \<and> dir_sort exExt (exOpts ''natural'' True True False) d1 = Some d2 \<and> fi d2 = fi d1)
   \<and> distinct (all (exDir [exA, exB]))
   \<and> flipping exExt (exOpts ''size'' True False True) (all (exDir [exA, exB]))
   \<and> (\<exists>d1 d2. dir_sort exExt (exOpts ''size'' True False True) (exDir [exA, exB]) = Some d1
          \<and> dir_sort exExt (exOpts ''size'' True False True) d1 = Some d2 \<and> fi d2 \<noteq> fi d1)
   \<and> (\<exists>d1. dir_sort exExt (exOpts ''name'' False True False) (exDir [exB, exH, exA]) = Some d1
          \<and> dir_sort exExt (exOpts ''name'' False True False) d1 = Some d1)"
proof -
  have ne: "hidden g \<or> (\<forall>f\<in>set (all (exDir [exB, exH, exA])). Name f \<noteq> [])" for g
    by (simp add: ex_defs)
  have nl: "sortby g = ''natural'' \<longrightarrow> (\<forall>a b. naturalLess exExt a b = (a < b))" for g
    by (simp add: exExt_def)
  have h: "hidden (exOpts ''size'' True False True) \<or> (\<forall>f\<in>set (all (exDir [exA, exB])). Name f \<noteq> [])"
    by (simp add: exOpts_def)
  have r: "reverse (exOpts ''natural'' True True False)" "\<not> reverse (exOpts ''name'' False True False)"
    by (simp_all add: exOpts_def)
  from sort_idempotent_unless_reversed_tie
         [OF ne [of "exOpts ''natural'' True True False"] nl [of "exOpts ''natural'' True True False"]] ex_flip(1)
  have 1: "\<exists>d1 d2. dir_sort exExt (exOpts ''natural'' True True False) (exDir [exB, exH, exA]) = Some d1
          \<and> dir_sort exExt (exOpts ''natural'' True True False) d1 = Some d2 \<and> fi d2 = fi d1"
    by blast
  from sort_idempotent_unless_reversed_tie [OF h nl [of "exOpts ''size'' True False True"]] ex_flip(2,3)
  have 2: "\<exists>d1 d2. dir_sort exExt (exOpts ''size'' True False True) (exDir [exA, exB]) = Some d1
          \<and> dir_sort exExt (exOpts ''size'' True False True) d1 = Some d2 \<and> fi d2 \<noteq> fi d1"
    by blast
  from sort_idempotent_unless_reversed_tie
         [OF ne [of "exOpts ''name'' False True False"] nl [of "exOpts ''name'' False True False"]] r(2)
  have 3: "\<exists>d1. dir_sort exExt (exOpts ''name'' False True False) (exDir [exB, exH, exA]) = Some d1
          \<and> dir_sort exExt (exOpts ''name'' False True False) d1 = Some d1"
    by blast
  have 0: "list_all (\<lambda>f. Name f \<noteq> []) (all (exDir [exB, exH, exA]))"
    "\<forall>a b. naturalLess exExt a b = (a < b)"
    by (simp_all add: ex_defs)
  show ?thesis using 0 r(1) ex_flip 1 2 3 by blast
qed

text \<open>
  Claim C7: after \<open>sort\<close> with hidden entries off, no entry of \<open>visible\<close> has a name
  that begins with a dot, and \<open>visible\<close> is the list of the other entries of \<open>all\<close> in
  the order they have in \<open>all\<close> (the array as \<open>sort\<close> leaves it). Names are not empty,
  as \<^verbatim>\<open>Name()[0]\<close> requires; then \<open>sort\<close> does return.
\<close>

theorem sort_hides_dot_entries:
  assumes "\<not> hidden g" and "\<forall>f\<in>set (all d). Name f \<noteq> []"
  shows "\<exists>d'. dir_sort x g d = Some d' \<and> (\<forall>f\<in>set (fi d'). \<not> dot f)
           \<and> fi d' = filter (\<lambda>f. \<not> dot f) (all d')"
  using assms by (simp add: dir_sort_eq visibleOf_def)

text \<open>The entries \<open>[b.txt, a.txt, .hidden]\<close> sorted by name with hidden entries off:
  \<open>visible\<close> is \<open>[a.txt, b.txt]\<close>.\<close>

theorem sort_hides_dot_entries_witness:
  "\<not> hidden (exOpts ''name'' False False False)
   \<and> list_all (\<lambda>f. Name f \<noteq> []) (all (exDir [exB, exA, exH]))
   \<and> (\<exists>d'. dir_sort exExt (exOpts ''name'' False False False) (exDir [exB, exA, exH]) = Some d'
          \<and> (\<forall>f\<in>set (fi d'). \<not> dot f) \<and> fi d' = filter (\<lambda>f. \<not> dot f) (all d'))
   \<and> map_option (map Name \<circ> fi)
        (dir_sort exExt (exOpts ''name'' False False False) (exDir [exB, exA, exH]))
       = Some [''a.txt'', ''b.txt'']"
proof -
  have v: "map_option (map Name \<circ> fi)
        (dir_sort exExt (exOpts ''name'' False False False) (exDir [exB, exA, exH]))
       = Some [''a.txt'', ''b.txt'']"
    by code_simp
  show ?thesis
    using sort_hides_dot_entries
          [of "exOpts ''name'' False False False" "exDir [exB, exA, exH]" exExt] v
    by (simp add: ex_defs)
qed

section \<open>Cursor operations on the stack\<close>

lemma onCurrDir_eq:
  assumes "currDir n = Some a" "a < length (heap n)"
  shows "\<exists>n'. onCurrDir f n = Some n' \<and> currDir n' = Some a \<and> height n' = height n
           \<and> heap n' ! a = f (heap n ! a)"
  using assms by (auto simp: onCurrDir_def currDir_def split: if_splits)

text \<open>
  Claim C6, amended. For a viewport of at least one row, a scroll margin
  \<open>0 \<le> scrolloff < height\<close>, a distance that is not negative, and values below
  \<open>2 ^ 62\<close>, the operations up, down, top and find take a current Listing that
  satisfies the invariants to one that satisfies them, and so does bottom when
  \<open>visible\<close> is not empty. The invariants: \<open>0 \<le> ind < len(visible)\<close>, or
  \<open>ind = pos = 0\<close> when \<open>visible\<close> is empty, and \<open>0 \<le> pos \<le> min(ind, height - 1)\<close>.
\<close>

theorem cursor_ops_keep_invariants:
  assumes "currDir n = Some a" and "a < length (heap n)"
    and "listingInv (height n) (heap n ! a)"
    and "cursorArgs g (height n) dist (heap n ! a)"
  shows "(\<exists>n'. nav_up g dist n = Some n' \<and> currDir n' = Some a
              \<and> listingInv (height n') (heap n' ! a))
       \<and> (\<exists>n'. nav_down g dist n = Some n' \<and> currDir n' = Some a
              \<and> listingInv (height n') (heap n' ! a))
       \<and> (\<exists>n'. nav_top n = Some n' \<and> currDir n' = Some a
              \<and> listingInv (height n') (heap n' ! a))
       \<and> (fi (heap n ! a) \<noteq> [] \<longrightarrow>
            (\<exists>n'. nav_bot n = Some n' \<and> currDir n' = Some a
              \<and> listingInv (height n') (heap n' ! a)))
       \<and> (\<forall>name. \<exists>d'. dir_find g name (height n) (heap n ! a) = Some d'
              \<and> listingInv (height n) d')"
proof -
  have h: "1 \<le> height n" "height n < 2 ^ 62" using assms(4) by (auto simp: cursorArgs_def)
  have up: "\<exists>n'. nav_up g dist n = Some n' \<and> currDir n' = Some a
              \<and> listingInv (height n') (heap n' ! a)"
    using onCurrDir_eq [OF assms(1,2), of "dir_up g dist"] dir_up_inv [OF assms(3,4)]
    by (auto simp: nav_up_def)
  have down: "\<exists>n'. nav_down g dist n = Some n' \<and> currDir n' = Some a
              \<and> listingInv (height n') (heap n' ! a)"
    using onCurrDir_eq [OF assms(1,2), of "dir_down g (height n) dist"] dir_down_inv [OF assms(3,4)]
    by (auto simp: nav_down_def)
  have top: "\<exists>n'. nav_top n = Some n' \<and> currDir n' = Some a
              \<and> listingInv (height n') (heap n' ! a)"
    using onCurrDir_eq [OF assms(1,2), of dir_top] dir_top_inv [OF assms(3) h(1)]
    by (auto simp: nav_top_def)
  have bot: "fi (heap n ! a) \<noteq> [] \<Longrightarrow> \<exists>n'. nav_bot n = Some n' \<and> currDir n' = Some a
              \<and> listingInv (height n') (heap n' ! a)"
    using onCurrDir_eq [OF assms(1,2), of "dir_bot (height n)"] dir_bot_inv [OF _ h]
    by (auto simp: nav_bot_def)
  have find: "\<And>name. \<exists>d'. dir_find g name (height n) (heap n ! a) = Some d'
              \<and> listingInv (height n) d'"
    by (rule dir_find_inv [OF assms(3,4)])
  show ?thesis using up down top bot find by blast
qed

text \<open>Ten entries, the cursor on the last one, a viewport of five rows.\<close>

lemma exList_facts:
  "currDir (exNav 5 exList) = Some 0" "0 < length (heap (exNav 5 exList))"
  "listingInv (height (exNav 5 exList)) (heap (exNav 5 exList) ! 0)"
  "cursorArgs (exOpts ''name'' False False True\<lparr>scrolloff := 2\<rparr>) (height (exNav 5 exList)) 3
     (heap (exNav 5 exList) ! 0)"
  by (simp_all add: exNav_def exList_def exDir_def currDir_def listingInv_def cursorArgs_def
      len_def exOpts_def)

theorem cursor_ops_keep_invariants_witness:
  "currDir (exNav 5 exList) = Some 0 \<and> 0 < length (heap (exNav 5 exList))
   \<and> listingInv (height (exNav 5 exList)) (heap (exNav 5 exList) ! 0)
   \<and> cursorArgs (exOpts ''name'' False False True\<lparr>scrolloff := 2\<rparr>) (height (exNav 5 exList)) 3
        (heap (exNav 5 exList) ! 0)
   \<and> fi (heap (exNav 5 exList) ! 0) \<noteq> []
   \<and> (\<exists>n'. nav_up (exOpts ''name'' False False True\<lparr>scrolloff := 2\<rparr>) 3 (exNav 5 exList) = Some n'
          \<and> listingInv (height n') (heap n' ! 0))
   \<and> (\<exists>n'. nav_bot (exNav 5 exList) = Some n' \<and> listingInv (height n') (heap n' ! 0))"
proof -
  have ne: "fi (heap (exNav 5 exList) ! 0) \<noteq> []"
    by (simp add: exNav_def exList_def exDir_def)
  from cursor_ops_keep_invariants [OF exList_facts] ne exList_facts
  show ?thesis by blast
qed

text \<open>Claim C6 as stated fails: nothing in nav.go bounds the scroll margin by the
  height. With ten entries, the cursor on the last, five rows and \<open>scrolloff = 999\<close>,
  one step up leaves \<open>pos = 8\<close>, beyond the last row.\<close>

theorem scrolloff_beyond_height_counterexample:
  "listingInv 5 exList
   \<and> \<not> listingInv 5 (dir_up (exOpts ''name'' False False True\<lparr>scrolloff := 999\<rparr>) 1 exList)"
  by (simp add: exList_def exDir_def listingInv_def dir_up_def len_def exOpts_def sub64_def
      i64_def Let_def)

section \<open>The concrete states\<close>

lemma exNav_fields:
  "heap (exNav h d) = [d]" "dirs (exNav h d) = [0]" "cwd (exNav h d) = dir.path d"
  "dirCache (exNav h d) q = (if q = dir.path d then Some 0 else None)"
  by (simp_all add: exNav_def)

lemma ex_paths:
  "fileT.path exA = ''/d/a.txt''" "fileT.path exSub = ''/d/sub''" "dir.path (exDir fs) = ''/d''"
  by (simp_all add: ex_defs exSub_def)

lemma exNav_currFile: "currFile (exNav 5 (exDir [exA])) = Inr exA"
  by (simp add: currFile_def currDir_def exNav_def exDir_def len_def)

lemma exNav_currFile_empty: "currFile (exNav 5 (exDir [])) = Inl (Err ''empty directory'')"
  by (simp add: currFile_def currDir_def exNav_def exDir_def len_def)

lemma exNav_currFile_sub: "currFile (exNav 5 (exDir [exSub])) = Inr exSub"
  by (simp add: currFile_def currDir_def exNav_def exDir_def len_def)

section \<open>loadDir\<close>

lemma loadDir_hit: "dirCache n p = Some a \<Longrightarrow> loadDir p n = (a, n)"
  by (simp add: loadDir_def)

lemma loadDir_miss:
  assumes "dirCache n p = None"
  shows "fst (loadDir p n) = length (heap n)"
    and "heap (snd (loadDir p n)) = heap n @ [placeholder p]"
    and "dirCache (snd (loadDir p n)) = (dirCache n)(p \<mapsto> length (heap n))"
    and "effects (snd (loadDir p n)) = effects n @ [GoScan p, DirCachePut p]"
  using assms by (simp_all add: loadDir_def Let_def)

lemma loadDir_frame:
  "dirs (snd (loadDir p n)) = dirs n" "cwd (snd (loadDir p n)) = cwd n"
  by (simp_all add: loadDir_def Let_def split: option.splits)

lemma loadDir_cached: "dirCache (snd (loadDir p n)) p = Some (fst (loadDir p n))"
  by (cases "dirCache n p") (simp_all add: loadDir_hit loadDir_miss)

lemma loadDir_valid:
  assumes "\<forall>q b. dirCache n q = Some b \<longrightarrow> b < length (heap n)"
  shows "fst (loadDir p n) < length (heap (snd (loadDir p n)))"
  using assms by (cases "dirCache n p") (simp_all add: loadDir_hit loadDir_miss)

lemma loadDir_cached_after: "dirCache (snd (loadDir p n)) p \<noteq> None"
  by (cases "dirCache n p") (simp_all add: loadDir_hit loadDir_miss)

lemma loadDir_cache_mono: "dirCache n q \<noteq> None \<Longrightarrow> dirCache (snd (loadDir p n)) q \<noteq> None"
  by (cases "dirCache n p") (auto simp: loadDir_hit loadDir_miss)

lemma loadDir_cache_other:
  "p \<noteq> q \<Longrightarrow> dirCache (snd (loadDir p n)) q = dirCache n q"
  by (cases "dirCache n p") (auto simp: loadDir_hit loadDir_miss)

lemma loadDir_scans:
  "scans q (snd (loadDir p n)) = scans q n + (if p = q \<and> dirCache n q = None then 1 else 0)"
  by (cases "dirCache n p") (auto simp: loadDir_hit loadDir_miss scans_def)

lemma loadDirs_scans_cached:
  "dirCache n q \<noteq> None \<Longrightarrow> scans q (loadDirs ps n) = scans q n"
proof (induction ps arbitrary: n)
  case Nil
  then show ?case by (simp add: loadDirs_def)
next
  case (Cons p ps)
  have "scans q (loadDirs ps (snd (loadDir p n))) = scans q (snd (loadDir p n))"
    by (rule Cons.IH) (rule loadDir_cache_mono [OF Cons.prems])
  then show ?case using Cons.prems by (simp add: loadDirs_def loadDir_scans)
qed

lemma loadDirs_scans:
  "scans q (loadDirs ps n)
     = scans q n + (if q \<in> set ps \<and> dirCache n q = None then 1 else 0)"
proof (induction ps arbitrary: n)
  case Nil
  then show ?case by (simp add: loadDirs_def)
next
  case (Cons p ps)
  let ?n1 = "snd (loadDir p n)"
  have step: "loadDirs (p # ps) n = loadDirs ps ?n1" by (simp add: loadDirs_def)
  show ?case
  proof (cases "p = q")
    case True
    have a: "scans q (loadDirs ps ?n1) = scans q ?n1"
      using loadDirs_scans_cached [of ?n1 q ps] loadDir_cached_after [of p n] True by simp
    show ?thesis unfolding step a using True by (simp add: loadDir_scans)
  next
    case False
    then show ?thesis
      unfolding step using Cons.IH [of ?n1] by (simp add: loadDir_scans loadDir_cache_other)
  qed
qed

text \<open>
  Claim C4, amended. On a path that is not in the cache, \<open>loadDir\<close> starts the worker
  and then, in the same call, stores a \<open>loading = true\<close> placeholder in the cache
  and returns it. On a cached path (placeholder or finished Listing) it returns
  the cached entry and changes nothing. So a run of \<open>loadDir\<close> requests, during
  which nothing leaves the cache, starts one scan for a path that was not cached
  and is requested, and none otherwise.
\<close>

theorem loadDir_one_scan_per_cached_path:
  "(dirCache n p = None \<longrightarrow>
      (let (a, n') = loadDir p n in
         a = length (heap n) \<and> heap n' ! a = placeholder p \<and> loading (heap n' ! a)
         \<and> dirCache n' p = Some a
         \<and> effects n' = effects n @ [GoScan p, DirCachePut p]))
   \<and> (\<forall>a. dirCache n p = Some a \<longrightarrow> loadDir p n = (a, n))
   \<and> scans p (loadDirs ps n) = scans p n + (if p \<in> set ps \<and> dirCache n p = None then 1 else 0)"
proof (intro conjI impI allI)
  assume m: "dirCache n p = None"
  show "let (a, n') = loadDir p n in
         a = length (heap n) \<and> heap n' ! a = placeholder p \<and> loading (heap n' ! a)
         \<and> dirCache n' p = Some a
         \<and> effects n' = effects n @ [GoScan p, DirCachePut p]"
    using loadDir_miss [OF m] by (simp add: split_beta placeholder_def)
next
  fix a assume "dirCache n p = Some a"
  then show "loadDir p n = (a, n)" by (rule loadDir_hit)
next
  show "scans p (loadDirs ps n) = scans p n + (if p \<in> set ps \<and> dirCache n p = None then 1 else 0)"
    by (rule loadDirs_scans)
qed

theorem loadDir_one_scan_per_cached_path_witness:
  "dirCache (exNav 5 (exDir [exA])) ''/d/sub'' = None
   \<and> effects (snd (loadDir ''/d/sub'' (exNav 5 (exDir [exA])))) = [GoScan ''/d/sub'', DirCachePut ''/d/sub'']
   \<and> dirCache (exNav 5 (exDir [exA])) ''/d'' = Some 0
   \<and> loadDir ''/d'' (exNav 5 (exDir [exA])) = (0, exNav 5 (exDir [exA]))
   \<and> scans ''/d/sub'' (loadDirs [''/d/sub'', ''/d'', ''/d/sub'', ''/d/sub''] (exNav 5 (exDir [exA]))) = 1"
proof -
  have a: "dirCache (exNav 5 (exDir [exA])) ''/d/sub'' = None"
    "dirCache (exNav 5 (exDir [exA])) ''/d'' = Some 0"
    "effects (exNav 5 (exDir [exA])) = []"
    by (simp_all add: exNav_def exDir_def)
  from loadDir_one_scan_per_cached_path
         [of "exNav 5 (exDir [exA])" "''/d/sub''" "[''/d/sub'', ''/d'', ''/d/sub'', ''/d/sub'']"]
       loadDir_one_scan_per_cached_path [of "exNav 5 (exDir [exA])" "''/d''" "[]"] a
  show ?thesis by (simp add: split_beta scans_def)
qed

lemma nav_renew_fields:
  "heap (nav_renew w h n) = heap n"
  "dirs (nav_renew w h n) = dirs n"
  "dirCache (nav_renew w h n) = fold (\<lambda>a c. c(dir.path (heap n ! a) \<mapsto> a)) (dirs n) Map.empty"
  "effects (nav_renew w h n)
     = effects n @ map (\<lambda>a. DirCachePut (dir.path (heap n ! a))) (dirs n) @ map GoRenew (dirs n)"
  by (simp_all add: nav_renew_def Let_def)

text \<open>Claim C4 as stated fails twice. The \<^verbatim>\<open>go\<close> statement is executed before the
  placeholder is stored. And a path can have two scans in flight: \<open>renew\<close> rebuilds
  the cache from the Listings of the stack, so the placeholder of a path that is
  not on the stack leaves the cache while its scan is under way, and the next
  \<open>loadDir\<close> for that path starts a second scan; nothing was received in between.\<close>

theorem loadDir_order_and_rescan_counterexample:
  "effects (snd (loadDir ''/d/sub'' (exNav 5 (exDir [exA]))))
     = [GoScan ''/d/sub'', DirCachePut ''/d/sub'']
   \<and> dirCache (nav_renew exWorld 5 (snd (loadDir ''/d/sub'' (exNav 5 (exDir [exA]))))) ''/d/sub'' = None
   \<and> effects (snd (loadDir ''/d/sub''
                 (nav_renew exWorld 5 (snd (loadDir ''/d/sub'' (exNav 5 (exDir [exA])))))))
     = [GoScan ''/d/sub'', DirCachePut ''/d/sub'', DirCachePut ''/d'', GoRenew 0,
        GoScan ''/d/sub'', DirCachePut ''/d/sub'']
   \<and> scans ''/d/sub'' (snd (loadDir ''/d/sub''
                 (nav_renew exWorld 5 (snd (loadDir ''/d/sub'' (exNav 5 (exDir [exA]))))))) = 2"
proof -
  let ?n = "exNav 5 (exDir [exA])"
  let ?n1 = "snd (loadDir ''/d/sub'' ?n)"
  let ?n2 = "nav_renew exWorld 5 ?n1"
  let ?n3 = "snd (loadDir ''/d/sub'' ?n2)"
  have m: "dirCache ?n ''/d/sub'' = None" by (simp add: exNav_fields ex_paths)
  have e1: "effects ?n1 = [GoScan ''/d/sub'', DirCachePut ''/d/sub'']"
    using loadDir_miss(4) [OF m] by (simp add: exNav_def)
  have h1: "heap ?n1 = [exDir [exA], placeholder ''/d/sub'']" "dirs ?n1 = [0]"
    using loadDir_miss(2) [OF m] by (simp_all add: loadDir_frame exNav_fields)
  have c2: "dirCache ?n2 ''/d/sub'' = None"
    by (simp add: nav_renew_fields h1 ex_paths)
  have e2: "effects ?n2 = [GoScan ''/d/sub'', DirCachePut ''/d/sub'', DirCachePut ''/d'', GoRenew 0]"
    by (simp add: nav_renew_fields h1 e1 ex_paths)
  have e3: "effects ?n3 = [GoScan ''/d/sub'', DirCachePut ''/d/sub'', DirCachePut ''/d'', GoRenew 0,
        GoScan ''/d/sub'', DirCachePut ''/d/sub'']"
    using loadDir_miss(4) [OF c2] e2 by simp
  have "scans ''/d/sub'' ?n3 = 2" by (simp add: scans_def e3)
  with e1 c2 e3 show ?thesis by simp
qed

section \<open>open\<close>

lemma nav_open_eq:
  assumes "currFile n = Inr cf"
  shows "nav_open w n =
           (case chdir w (fileT.path cf) of
              Some e \<Rightarrow> (Some (Err (''open: '' @ msg e)),
                         (snd (loadDir (fileT.path cf) n))
                           \<lparr>dirs := dirs n @ [fst (loadDir (fileT.path cf) n)]\<rparr>)
            | None \<Rightarrow> (None,
                       (snd (loadDir (fileT.path cf) n))
                         \<lparr>dirs := dirs n @ [fst (loadDir (fileT.path cf) n)],
                          cwd := fileT.path cf\<rparr>))"
  using assms by (simp add: nav_open_def Let_def split_beta loadDir_frame split: option.splits)

text \<open>
  Claim C1, amended. \<open>open\<close> does not look at whether the highlighted entry is a
  directory. When there is a highlighted entry, the state after \<open>open\<close> is the state
  after \<open>loadDir\<close> on the entry's path (the Listing found in the cache, or a new
  placeholder, allocated and cached) with that Listing pushed on the stack; \<open>open\<close>
  then changes the working directory, and returns an error exactly when that
  change fails: the stack keeps the pushed Listing, and the working directory is
  the entry's path on success and unchanged on failure. When the current Listing
  is empty, \<open>open\<close> returns an error and changes nothing.
\<close>

theorem open_pushes_then_chdir:
  "(\<forall>cf. currFile n = Inr cf \<longrightarrow>
      (\<exists>a n1. loadDir (fileT.path cf) n = (a, n1)
         \<and> dirCache n1 (fileT.path cf) = Some a
         \<and> (dirCache n (fileT.path cf) = None \<longrightarrow>
               a = length (heap n) \<and> heap n1 = heap n @ [placeholder (fileT.path cf)])
         \<and> (dirCache n (fileT.path cf) \<noteq> None \<longrightarrow> n1 = n)
         \<and> ((\<forall>q b. dirCache n q = Some b \<longrightarrow> b < length (heap n)) \<longrightarrow> a < length (heap n1))
         \<and> dirs n1 = dirs n \<and> cwd n1 = cwd n
         \<and> nav_open w n =
              (case chdir w (fileT.path cf) of
                 Some e \<Rightarrow> (Some (Err (''open: '' @ msg e)), n1\<lparr>dirs := dirs n @ [a]\<rparr>)
               | None \<Rightarrow> (None, n1\<lparr>dirs := dirs n @ [a], cwd := fileT.path cf\<rparr>))))
   \<and> (\<forall>e. currFile n = Inl (Err e) \<longrightarrow> nav_open w n = (Some (Err (''open: '' @ e)), n))"
proof (intro conjI allI impI)
  fix cf assume cf: "currFile n = Inr cf"
  let ?p = "fileT.path cf"
  let ?a = "fst (loadDir ?p n)" and ?n1 = "snd (loadDir ?p n)"
  have 1: "loadDir ?p n = (?a, ?n1)" by simp
  have 2: "dirCache ?n1 ?p = Some ?a" by (rule loadDir_cached)
  have 3: "dirCache n ?p = None \<longrightarrow> ?a = length (heap n) \<and> heap ?n1 = heap n @ [placeholder ?p]"
    by (simp add: loadDir_miss)
  have 4: "dirCache n ?p \<noteq> None \<longrightarrow> ?n1 = n" by (auto simp: loadDir_hit)
  have 5: "(\<forall>q b. dirCache n q = Some b \<longrightarrow> b < length (heap n)) \<longrightarrow> ?a < length (heap ?n1)"
    using loadDir_valid by blast
  have 6: "dirs ?n1 = dirs n" "cwd ?n1 = cwd n" by (rule loadDir_frame)+
  note 7 = nav_open_eq [OF cf, of w]
  show "\<exists>a n1. loadDir ?p n = (a, n1)
         \<and> dirCache n1 ?p = Some a
         \<and> (dirCache n ?p = None \<longrightarrow> a = length (heap n) \<and> heap n1 = heap n @ [placeholder ?p])
         \<and> (dirCache n ?p \<noteq> None \<longrightarrow> n1 = n)
         \<and> ((\<forall>q b. dirCache n q = Some b \<longrightarrow> b < length (heap n)) \<longrightarrow> a < length (heap n1))
         \<and> dirs n1 = dirs n \<and> cwd n1 = cwd n
         \<and> nav_open w n =
              (case chdir w ?p of
                 Some e \<Rightarrow> (Some (Err (''open: '' @ msg e)), n1\<lparr>dirs := dirs n @ [a]\<rparr>)
               | None \<Rightarrow> (None, n1\<lparr>dirs := dirs n @ [a], cwd := ?p\<rparr>))"
    by (intro exI [of _ ?a] exI [of _ ?n1] conjI) (rule 1 2 3 4 5 6 7)+
next
  fix e assume "currFile n = Inl (Err e)"
  then show "nav_open w n = (Some (Err (''open: '' @ e)), n)"
    by (simp add: nav_open_def)
qed

theorem open_pushes_then_chdir_witness:
  "currFile (exNav 5 (exDir [exSub])) = Inr exSub
   \<and> chdir exEnter ''/d/sub'' = None
   \<and> fst (nav_open exEnter (exNav 5 (exDir [exSub]))) = None
   \<and> dirs (snd (nav_open exEnter (exNav 5 (exDir [exSub])))) = [0, 1]
   \<and> heap (snd (nav_open exEnter (exNav 5 (exDir [exSub])))) = [exDir [exSub], placeholder ''/d/sub'']
   \<and> dirCache (snd (nav_open exEnter (exNav 5 (exDir [exSub])))) ''/d/sub'' = Some 1
   \<and> cwd (snd (nav_open exEnter (exNav 5 (exDir [exSub])))) = ''/d/sub''
   \<and> currFile (exNav 5 (exDir [exA])) = Inr exA
   \<and> chdir exWorld ''/d/a.txt'' = Some (OsErr False ''not a directory'')
   \<and> fst (nav_open exWorld (exNav 5 (exDir [exA]))) = Some (Err ''open: not a directory'')
   \<and> dirs (snd (nav_open exWorld (exNav 5 (exDir [exA])))) = [0, 1]
   \<and> heap (snd (nav_open exWorld (exNav 5 (exDir [exA])))) = [exDir [exA], placeholder ''/d/a.txt'']
   \<and> cwd (snd (nav_open exWorld (exNav 5 (exDir [exA])))) = ''/d''
   \<and> currFile (exNav 5 (exDir [])) = Inl (Err ''empty directory'')
   \<and> nav_open exWorld (exNav 5 (exDir [])) = (Some (Err ''open: empty directory''), exNav 5 (exDir []))"
proof -
  let ?S = "exNav 5 (exDir [exSub])" and ?A = "exNav 5 (exDir [exA])"
  have c1: "chdir exEnter ''/d/sub'' = None"
    and c2: "chdir exWorld ''/d/a.txt'' = Some (OsErr False ''not a directory'')"
    by (simp_all add: exEnter_def exWorld_def)
  from open_pushes_then_chdir [of ?S exEnter] exNav_currFile_sub
  obtain a n1 where s: "dirCache n1 ''/d/sub'' = Some a"
      "a = length (heap ?S) \<and> heap n1 = heap ?S @ [placeholder ''/d/sub'']"
      "dirs n1 = dirs ?S"
      "nav_open exEnter ?S = (None, n1\<lparr>dirs := dirs ?S @ [a], cwd := ''/d/sub''\<rparr>)"
    by (auto simp: ex_paths exNav_fields c1)
  from open_pushes_then_chdir [of ?A exWorld] exNav_currFile
  obtain b m1 where t:
      "b = length (heap ?A) \<and> heap m1 = heap ?A @ [placeholder ''/d/a.txt'']"
      "cwd m1 = cwd ?A"
      "nav_open exWorld ?A = (Some (Err ''open: not a directory''), m1\<lparr>dirs := dirs ?A @ [b]\<rparr>)"
    by (auto simp: ex_paths exNav_fields c2)
  from open_pushes_then_chdir [of "exNav 5 (exDir [])" exWorld] exNav_currFile_empty
  have u: "nav_open exWorld (exNav 5 (exDir [])) = (Some (Err ''open: empty directory''), exNav 5 (exDir []))"
    by simp
  show ?thesis
    using s t u c1 c2 exNav_currFile exNav_currFile_sub exNav_currFile_empty
    by (simp add: exNav_fields ex_paths)
qed

text \<open>Claim C1 as stated fails: on the regular file \<open>a.txt\<close>, where the change of
  directory fails, \<open>open\<close> returns the error and the stack has grown by one Listing.\<close>

theorem open_regular_file_counterexample:
  "IsDir exA = False
   \<and> currFile (exNav 5 (exDir [exA])) = Inr exA
   \<and> fst (nav_open exWorld (exNav 5 (exDir [exA]))) = Some (Err ''open: not a directory'')
   \<and> dirs (exNav 5 (exDir [exA])) = [0]
   \<and> dirs (snd (nav_open exWorld (exNav 5 (exDir [exA])))) = [0, 1]"
  by (simp add: nav_open_def exNav_currFile loadDir_def Let_def exWorld_def)
     (simp add: exNav_def exDir_def ex_defs)

section \<open>Marks\<close>

lemma marks_empty_iff: "marksInv n xs \<Longrightarrow> marks n = Map.empty \<longleftrightarrow> xs = []"
  by (auto simp: marksInv_def)

lemma sorted_wrt_removeAll:
  "sorted_wrt P xs \<Longrightarrow> sorted_wrt P (removeAll p xs)"
  by (induction xs) auto

lemma toggleMark_inv:
  assumes "marksInv n xs" "markInd n < 2 ^ 62"
  shows "marksInv (toggleMark p n) (toggleSpec p xs)
         \<and> markInd (toggleMark p n) \<le> markInd n + 1"
proof (cases "marks n p")
  case None
  then have nin: "p \<notin> set xs" using assms(1) by (auto simp: marksInv_def)
  have a: "add64 (markInd n) 1 = markInd n + 1"
    using assms by (simp add: add64_def i64_def marksInv_def)
  have eq: "toggleMark p n = n\<lparr>marks := (marks n)(p \<mapsto> markInd n), markInd := markInd n + 1\<rparr>"
    using None by (simp add: toggleMark_def Let_def a)
  have m: "map (\<lambda>k. the (if k = p then Some (markInd n) else marks n k)) xs
             = map (\<lambda>k. the (marks n k)) xs"
    using nin by auto
  show ?thesis
    unfolding eq using assms(1) nin
    by (auto simp: marksInv_def toggleSpec_def sorted_wrt_append m)
next
  case (Some i)
  then have pin: "p \<in> set xs" using assms(1) by (auto simp: marksInv_def)
  let ?n1 = "n\<lparr>marks := (marks n)(p := None)\<rparr>"
  have m: "map (\<lambda>k. the (if k = p then None else marks n k)) (removeAll p xs)
             = map (\<lambda>k. the (marks n k)) (removeAll p xs)"
    by (rule map_cong) auto
  have s: "sorted_wrt (<) (map (\<lambda>k. the (marks n k)) (removeAll p xs))"
    using assms(1) sorted_wrt_removeAll [of "\<lambda>a b. the (marks n a) < the (marks n b)" xs p]
    by (simp add: marksInv_def sorted_wrt_map)
  have i1: "marksInv ?n1 (removeAll p xs)"
    using assms(1) s by (auto simp: marksInv_def m distinct_removeAll)
  have e: "marks ?n1 = Map.empty \<longleftrightarrow> removeAll p xs = []"
    by (rule marks_empty_iff [OF i1])
  have eq: "toggleMark p n = (if removeAll p xs = [] then ?n1\<lparr>markInd := 0\<rparr> else ?n1)"
    using Some e by (simp add: toggleMark_def Let_def)
  have i2: "removeAll p xs = [] \<Longrightarrow> marksInv (?n1\<lparr>markInd := 0\<rparr>) []"
    using i1 by (simp add: marksInv_def)
  show ?thesis
    unfolding eq using i1 i2 pin assms(1) by (auto simp: toggleSpec_def marksInv_def)
qed

lemma toggles_inv:
  assumes "marksInv n xs" "markInd n + int (length ps) < 2 ^ 62"
  shows "marksInv (toggles ps n) (fold toggleSpec ps xs)"
  using assms
proof (induction ps arbitrary: n xs)
  case Nil
  then show ?case by (simp add: toggles_def)
next
  case (Cons p ps)
  have b: "markInd n < 2 ^ 62" using Cons.prems by (simp add: marksInv_def)
  from toggleMark_inv [OF Cons.prems(1) b, of p]
  have i: "marksInv (toggleMark p n) (toggleSpec p xs)"
    and l: "markInd (toggleMark p n) \<le> markInd n + 1" by auto
  have "markInd (toggleMark p n) + int (length ps) < 2 ^ 62" using l Cons.prems(2) by simp
  from Cons.IH [OF i this] show ?case by (simp add: toggles_def)
qed

lemma currMarks_eq:
  assumes inv: "marksInv n xs" and ks: "distinct ks" "set ks = dom (marks n)"
  shows "currMarks ks n = xs"
proof -
  define idx where "idx = (\<lambda>k. the (marks n k))"
  define f where "f = (\<lambda>k. (k, idx k))"
  from inv have dx: "distinct xs" and sx: "set xs = set ks"
    and st: "sorted_wrt (<) (map idx xs)"
    using ks by (auto simp: marksInv_def idx_def)
  have dm: "distinct (map idx xs)" using st by (simp add: strict_sorted_iff)
  then have inj: "inj_on idx (set xs)" by (simp add: distinct_map)
  have ms: "mset xs = mset ks" using dx ks(1) sx by (simp add: set_eq_iff_mset_eq_distinct)
  have injs: "inj_on snd (set (map f xs))"
    using inj by (auto simp: inj_on_def f_def)
  have sk: "set (map f ks) = set (map f xs)" using sx by simp
  have "sort_key snd (map f ks) = map f xs"
  proof (rule properties_for_sort_key)
    show "mset (map f xs) = mset (map f ks)" using ms by simp
    show "sorted (map snd (map f xs))"
      using st by (simp add: f_def comp_def strict_sorted_iff)
    fix k assume k: "k \<in> set (map f xs)"
    have 1: "filter (\<lambda>x. snd k = snd x) (map f xs) = [k]"
      by (rule filter_same_key [OF _ injs k]) (simp add: distinct_map dx f_def inj_on_def)
    have 2: "filter (\<lambda>x. snd k = snd x) (map f ks) = [k]"
      by (rule filter_same_key) (use ks(1) injs k sk in \<open>auto simp: distinct_map f_def inj_on_def\<close>)
    show "filter (\<lambda>x. snd k = snd x) (map f xs) = filter (\<lambda>x. snd k = snd x) (map f ks)"
      using 1 2 by simp
  qed
  then show ?thesis by (simp add: currMarks_def f_def idx_def comp_def)
qed

lemma toggles_from_empty:
  assumes "marks n0 = Map.empty" "markInd n0 = 0" "int (length ps) < 2 ^ 62"
  shows "marksInv (toggles ps n0) (fold toggleSpec ps [])"
  by (rule toggles_inv) (use assms in \<open>simp_all add: marksInv_def\<close>)

text \<open>
  Claim C9. From an empty mark set (counter 0), after any run of toggles,
  \<open>currMarks\<close> returns the marked paths in the order in which they were last toggled
  on, for every order \<open>ks\<close> in which the map may be ranged over; the indices of the
  marked paths are pairwise different, so the sort decides the order alone. In
  particular, for three different paths: toggling A, B, C gives \<open>[A, B, C]\<close>, and
  toggling B off and on again gives \<open>[A, C, B]\<close>.
\<close>

theorem orderedMarks_in_toggle_order:
  assumes "marks n0 = Map.empty" and "markInd n0 = 0"
  shows "(int (length ps) < 2 ^ 62 \<longrightarrow>
           (\<forall>ks. distinct ks \<and> set ks = dom (marks (toggles ps n0)) \<longrightarrow>
              currMarks ks (toggles ps n0) = fold toggleSpec ps []
              \<and> distinct (map (\<lambda>k. the (marks (toggles ps n0) k)) ks)))
       \<and> (distinct [A, B, C] \<longrightarrow>
           (\<forall>ks. distinct ks \<and> set ks = {A, B, C} \<longrightarrow>
              currMarks ks (toggles [A, B, C] n0) = [A, B, C]
              \<and> currMarks ks (toggles [A, B, C, B, B] n0) = [A, C, B]))"
proof (intro conjI impI allI)
  fix ks
  assume "int (length ps) < 2 ^ 62" "distinct ks \<and> set ks = dom (marks (toggles ps n0))"
  then show "currMarks ks (toggles ps n0) = fold toggleSpec ps []"
    using currMarks_eq [OF toggles_from_empty [OF assms]] by simp
next
  fix ks
  assume b: "int (length ps) < 2 ^ 62"
    and ks: "distinct ks \<and> set ks = dom (marks (toggles ps n0))"
  let ?idx = "\<lambda>k. the (marks (toggles ps n0) k)"
  from toggles_from_empty [OF assms b]
  have "sorted_wrt (<) (map ?idx (fold toggleSpec ps []))"
    and "dom (marks (toggles ps n0)) = set (fold toggleSpec ps [])"
    by (simp_all add: marksInv_def)
  then have "inj_on ?idx (set ks)"
    using ks by (simp add: strict_sorted_iff distinct_map)
  then show "distinct (map ?idx ks)" using ks by (simp add: distinct_map)
next
  fix ks
  assume d: "distinct [A, B, C]" and ks: "distinct ks \<and> set ks = {A, B, C}"
  have s1: "fold toggleSpec [A, B, C] [] = [A, B, C]"
    using d by (auto simp: toggleSpec_def)
  have s2: "fold toggleSpec [A, B, C, B, B] [] = [A, C, B]"
    using d by (auto simp: toggleSpec_def)
  have i1: "marksInv (toggles [A, B, C] n0) [A, B, C]"
    using toggles_from_empty [OF assms, of "[A, B, C]"] s1 by simp
  have i2: "marksInv (toggles [A, B, C, B, B] n0) [A, C, B]"
    using toggles_from_empty [OF assms, of "[A, B, C, B, B]"] s2 by simp
  have k1: "set ks = dom (marks (toggles [A, B, C] n0))"
    using i1 ks by (auto simp: marksInv_def)
  have k2: "set ks = dom (marks (toggles [A, B, C, B, B] n0))"
    using i2 ks by (auto simp: marksInv_def)
  show "currMarks ks (toggles [A, B, C] n0) = [A, B, C]"
    using currMarks_eq [OF i1 _ k1] ks by simp
  show "currMarks ks (toggles [A, B, C, B, B] n0) = [A, C, B]"
    using currMarks_eq [OF i2 _ k2] ks by simp
qed

theorem orderedMarks_in_toggle_order_witness:
  "marks (exNav 5 (exDir [])) = Map.empty \<and> markInd (exNav 5 (exDir [])) = 0
   \<and> distinct [''/d/a'', ''/d/b'', ''/d/c'']
   \<and> distinct [''/d/c'', ''/d/b'', ''/d/a'']
   \<and> currMarks [''/d/c'', ''/d/b'', ''/d/a''] (toggles [''/d/a'', ''/d/b'', ''/d/c''] (exNav 5 (exDir [])))
       = [''/d/a'', ''/d/b'', ''/d/c'']
   \<and> currMarks [''/d/c'', ''/d/b'', ''/d/a'']
         (toggles [''/d/a'', ''/d/b'', ''/d/c'', ''/d/b'', ''/d/b''] (exNav 5 (exDir [])))
       = [''/d/a'', ''/d/c'', ''/d/b'']"
proof -
  have e: "marks (exNav 5 (exDir [])) = Map.empty" "markInd (exNav 5 (exDir [])) = 0"
    by (simp_all add: exNav_def)
  have s: "set [''/d/c'', ''/d/b'', ''/d/a''] = {''/d/a'', ''/d/b'', ''/d/c''}" by auto
  from orderedMarks_in_toggle_order [OF e, of "[]" "''/d/a''" "''/d/b''" "''/d/c''"] s e
  show ?thesis by simp
qed
section \<open>readdir\<close>

lemma path_mkFile [simp]: "fileT.path (mkFile i l q) = q"
  by (simp add: mkFile_def fileInfo.extend_def fileT.fields_def)

lemma scanNames_step:
  assumes "\<not> lstatFails w (joinPath p nm)"
  shows "scanNames w p (nm # names) acc lg
           = scanNames w p names (acc @ fst (scanEntry w p nm)) (lg @ snd (scanEntry w p nm))"
proof (cases "lstat w (joinPath p nm)")
  case (Inl e)
  then have "isNotExist e" using assms by (simp add: lstatFails_def)
  with Inl show ?thesis by (simp add: scanEntry_def Let_def)
next
  case (Inr li)
  then show ?thesis
    by (cases "stat w (joinPath p nm)") (simp_all add: scanEntry_def Let_def)
qed

lemma scanNames_run:
  assumes "\<forall>nm\<in>set names. \<not> lstatFails w (joinPath p nm)"
  shows "scanNames w p names acc lg
           = (acc @ scanEntries w p names, lg @ linkMsgs w p names, None)"
  using assms
proof (induction names arbitrary: acc lg)
  case Nil
  then show ?case by (simp add: scanEntries_def linkMsgs_def)
next
  case (Cons nm names)
  have 1: "\<not> lstatFails w (joinPath p nm)"
    and 2: "\<forall>x\<in>set names. \<not> lstatFails w (joinPath p x)" using Cons.prems by simp_all
  show ?case
    unfolding scanNames_step [OF 1] Cons.IH [OF 2]
    by (simp add: scanEntries_def linkMsgs_def)
qed

lemma scanNames_stop:
  assumes "\<forall>x\<in>set pre. \<not> lstatFails w (joinPath p x)"
    and "lstat w (joinPath p nm) = Inl e" and "\<not> isNotExist e"
  shows "scanNames w p (pre @ nm # post) acc lg
           = (acc @ scanEntries w p pre, lg @ linkMsgs w p pre, Some e)"
  using assms(1)
proof (induction pre arbitrary: acc lg)
  case Nil
  then show ?case using assms(2,3) by (simp add: Let_def scanEntries_def linkMsgs_def)
next
  case (Cons x pre)
  have 1: "\<not> lstatFails w (joinPath p x)"
    and 2: "\<forall>y\<in>set pre. \<not> lstatFails w (joinPath p y)" using Cons.prems by simp_all
  have "scanNames w p ((x # pre) @ nm # post) acc lg
          = scanNames w p (pre @ nm # post) (acc @ fst (scanEntry w p x)) (lg @ snd (scanEntry w p x))"
    using scanNames_step [OF 1, of "pre @ nm # post" acc lg] by simp
  then show ?case
    unfolding Cons.IH [OF 2] by (simp add: scanEntries_def linkMsgs_def)
qed

lemma scanEntry_vanished: "vanished w (joinPath p nm) \<Longrightarrow> scanEntry w p nm = ([], [])"
  by (auto simp: vanished_def scanEntry_def Let_def split: sum.splits)

lemma scanEntry_quiet:
  "\<forall>li. \<not> brokenLink w (joinPath p nm) li \<Longrightarrow> snd (scanEntry w p nm) = []"
  by (auto simp: brokenLink_def scanEntry_def Let_def split: sum.splits)

lemma scanEntry_broken:
  "brokenLink w (joinPath p nm) li \<Longrightarrow>
   \<exists>serr. stat w (joinPath p nm) = Inl serr
     \<and> scanEntry w p nm = ([mkFile li broken (joinPath p nm)],
                             [''getting link destination info: '' @ msg serr])"
  by (auto simp: brokenLink_def scanEntry_def Let_def split: sum.splits)

lemma scanEntry_paths:
  "map fileT.path (fst (scanEntry w p nm))
     = (if vanished w (joinPath p nm) \<or> lstatFails w (joinPath p nm) then [] else [joinPath p nm])"
  by (auto simp: vanished_def lstatFails_def scanEntry_def Let_def split: sum.splits)

lemma scanEntries_paths:
  "\<forall>nm\<in>set names. \<not> lstatFails w (joinPath p nm) \<Longrightarrow>
   map fileT.path (scanEntries w p names)
     = filter (\<lambda>q. \<not> vanished w q) (map (joinPath p) names)"
proof (induction names)
  case Nil
  then show ?case by (simp add: scanEntries_def)
next
  case (Cons nm names)
  then have "map fileT.path (scanEntries w p names)
     = filter (\<lambda>q. \<not> vanished w q) (map (joinPath p) names)" by simp
  moreover have "scanEntries w p (nm # names) = fst (scanEntry w p nm) @ scanEntries w p names"
    by (simp add: scanEntries_def)
  ultimately show ?case using Cons.prems by (simp add: scanEntry_paths)
qed

lemma scanEntries_broken:
  "nm \<in> set names \<Longrightarrow> brokenLink w (joinPath p nm) li \<Longrightarrow>
   mkFile li broken (joinPath p nm) \<in> set (scanEntries w p names)"
  using scanEntry_broken [of w p nm li] by (force simp: scanEntries_def)

text \<open>
  Claim C8, amended. Over the names read from the directory: an entry that has
  vanished is dropped without a word in the log, and the scan goes on; a dangling
  link is kept, marked broken, with the data of the link itself, its failure is
  logged, and the scan goes on; nothing else is logged. If no other \<^verbatim>\<open>Lstat\<close> error
  occurs, the result holds every entry that has not vanished, in the order of the
  names, with the error of the read of the names. At the first entry on which
  \<^verbatim>\<open>Lstat\<close> fails in another way the scan stops: \<open>readdir\<close> returns the entries
  and the log collected before it together with that error, and looks at no later
  name.
\<close>

theorem readdir_drops_vanished_stops_on_error:
  assumes "openDir w p = Inr (names, rerr)"
  shows "((\<forall>nm\<in>set names. \<not> lstatFails w (joinPath p nm)) \<longrightarrow>
           readdir w p = (scanEntries w p names, linkMsgs w p names, rerr)
           \<and> map fileT.path (scanEntries w p names)
               = filter (\<lambda>q. \<not> vanished w q) (map (joinPath p) names)
           \<and> (\<forall>nm\<in>set names. \<forall>li. brokenLink w (joinPath p nm) li
                 \<longrightarrow> mkFile li broken (joinPath p nm) \<in> set (scanEntries w p names)))
       \<and> (\<forall>pre nm post e.
             names = pre @ nm # post \<and> (\<forall>x\<in>set pre. \<not> lstatFails w (joinPath p x))
             \<and> lstat w (joinPath p nm) = Inl e \<and> \<not> isNotExist e \<longrightarrow>
             readdir w p = (scanEntries w p pre, linkMsgs w p pre, Some e)
             \<and> map fileT.path (scanEntries w p pre)
                 = filter (\<lambda>q. \<not> vanished w q) (map (joinPath p) pre))
       \<and> (\<forall>nm. vanished w (joinPath p nm) \<longrightarrow> scanEntry w p nm = ([], []))
       \<and> (\<forall>nm. (\<forall>li. \<not> brokenLink w (joinPath p nm) li) \<longrightarrow> snd (scanEntry w p nm) = [])
       \<and> (\<forall>nm li. brokenLink w (joinPath p nm) li \<longrightarrow>
             (\<exists>serr. stat w (joinPath p nm) = Inl serr
                \<and> scanEntry w p nm = ([mkFile li broken (joinPath p nm)],
                                        [''getting link destination info: '' @ msg serr])))"
proof (intro conjI impI allI ballI)
  assume a: "\<forall>nm\<in>set names. \<not> lstatFails w (joinPath p nm)"
  show "readdir w p = (scanEntries w p names, linkMsgs w p names, rerr)"
    using assms scanNames_run [OF a, of "[]" "[]"] by (simp add: readdir_def)
  show "map fileT.path (scanEntries w p names)
               = filter (\<lambda>q. \<not> vanished w q) (map (joinPath p) names)"
    by (rule scanEntries_paths [OF a])
next
  fix nm li
  assume "nm \<in> set names" "brokenLink w (joinPath p nm) li"
  then show "mkFile li broken (joinPath p nm) \<in> set (scanEntries w p names)"
    by (rule scanEntries_broken)
next
  fix pre nm post e
  assume a: "names = pre @ nm # post \<and> (\<forall>x\<in>set pre. \<not> lstatFails w (joinPath p x))
             \<and> lstat w (joinPath p nm) = Inl e \<and> \<not> isNotExist e"
  then have 1: "\<forall>x\<in>set pre. \<not> lstatFails w (joinPath p x)"
    and 2: "lstat w (joinPath p nm) = Inl e" and 3: "\<not> isNotExist e" by auto
  show "readdir w p = (scanEntries w p pre, linkMsgs w p pre, Some e)"
    using assms a scanNames_stop [OF 1 2 3, of post "[]" "[]"] by (simp add: readdir_def)
  show "map fileT.path (scanEntries w p pre)
                 = filter (\<lambda>q. \<not> vanished w q) (map (joinPath p) pre)"
    by (rule scanEntries_paths [OF 1])
next
  fix nm assume "vanished w (joinPath p nm)"
  then show "scanEntry w p nm = ([], [])" by (rule scanEntry_vanished)
next
  fix nm assume "\<forall>li. \<not> brokenLink w (joinPath p nm) li"
  then show "snd (scanEntry w p nm) = []" by (rule scanEntry_quiet)
next
  fix nm li assume "brokenLink w (joinPath p nm) li"
  then show "\<exists>serr. stat w (joinPath p nm) = Inl serr
                \<and> scanEntry w p nm = ([mkFile li broken (joinPath p nm)],
                                        [''getting link destination info: '' @ msg serr])"
    by (rule scanEntry_broken)
qed

lemma exFs_e:
  "openDir exFs ''/e'' = Inr ([''gone'', ''link'', ''f''], None)"
  "list_all (\<lambda>nm. \<not> lstatFails exFs (joinPath ''/e'' nm)) [''gone'', ''link'', ''f'']"
  "vanished exFs (joinPath ''/e'' ''gone'')"
  "brokenLink exFs (joinPath ''/e'' ''link'') (exInfo ''link'' True)"
  "scanEntries exFs ''/e'' [''gone'', ''link'', ''f'']
     = [mkFile (exInfo ''link'' True) broken ''/e/link'', mkFile (exInfo ''f'' False) notLink ''/e/f'']"
  "linkMsgs exFs ''/e'' [''gone'', ''link'', ''f'']
     = [''getting link destination info: no such file or directory'']"
  by (simp_all add: exFs_def exWorld_def lstatFails_def vanished_def joinPath_def brokenLink_def
      exInfo_def scanEntries_def linkMsgs_def scanEntry_def Let_def)

lemma exFs_d:
  "openDir exFs ''/d'' = Inr ([''x'', ''y''], None)"
  "lstat exFs (joinPath ''/d'' ''x'') = Inl (OsErr False ''permission denied'')"
  "lstat exFs (joinPath ''/d'' ''y'') = Inr (exInfo ''y'' False)"
  by (simp_all add: exFs_def exWorld_def joinPath_def)

theorem readdir_drops_vanished_stops_on_error_witness:
  "openDir exFs ''/e'' = Inr ([''gone'', ''link'', ''f''], None)
   \<and> list_all (\<lambda>nm. \<not> lstatFails exFs (joinPath ''/e'' nm)) [''gone'', ''link'', ''f'']
   \<and> vanished exFs (joinPath ''/e'' ''gone'')
   \<and> brokenLink exFs (joinPath ''/e'' ''link'') (exInfo ''link'' True)
   \<and> readdir exFs ''/e''
       = ([mkFile (exInfo ''link'' True) broken ''/e/link'', mkFile (exInfo ''f'' False) notLink ''/e/f''],
          [''getting link destination info: no such file or directory''], None)
   \<and> scanEntry exFs ''/e'' ''gone'' = ([], [])
   \<and> openDir exFs ''/d'' = Inr ([''x'', ''y''], None)
   \<and> lstat exFs (joinPath ''/d'' ''x'') = Inl (OsErr False ''permission denied'')
   \<and> readdir exFs ''/d'' = ([], [], Some (OsErr False ''permission denied''))"
proof -
  have a: "\<forall>nm\<in>set [''gone'', ''link'', ''f'']. \<not> lstatFails exFs (joinPath ''/e'' nm)"
    using exFs_e(2) by simp
  note t = readdir_drops_vanished_stops_on_error [OF exFs_e(1)]
  from t a exFs_e(5,6)
  have 1: "readdir exFs ''/e''
       = ([mkFile (exInfo ''link'' True) broken ''/e/link'', mkFile (exInfo ''f'' False) notLink ''/e/f''],
          [''getting link destination info: no such file or directory''], None)"
    by simp
  from t exFs_e(3) have 2: "scanEntry exFs ''/e'' ''gone'' = ([], [])" by blast
  from readdir_drops_vanished_stops_on_error [OF exFs_d(1)]
  have "[''x'', ''y''] = [] @ ''x'' # [''y''] \<and> (\<forall>x\<in>set []. \<not> lstatFails exFs (joinPath ''/d'' x))
             \<and> lstat exFs (joinPath ''/d'' ''x'') = Inl (OsErr False ''permission denied'')
             \<and> \<not> isNotExist (OsErr False ''permission denied'') \<longrightarrow>
         readdir exFs ''/d'' = (scanEntries exFs ''/d'' [], linkMsgs exFs ''/d'' [],
                                 Some (OsErr False ''permission denied''))"
    by blast
  then have 3: "readdir exFs ''/d'' = ([], [], Some (OsErr False ''permission denied''))"
    using exFs_d(2) by (simp add: scanEntries_def linkMsgs_def)
  show ?thesis using 1 2 3 exFs_e(1-4) exFs_d(1,2) by simp
qed

text \<open>Claim C8 as stated fails: \<open>x\<close> cannot be examined (permission denied), and the
  scan returns at once, without the file \<open>y\<close> that follows.\<close>

theorem readdir_other_error_counterexample:
  "openDir exFs ''/d'' = Inr ([''x'', ''y''], None)
   \<and> lstat exFs (joinPath ''/d'' ''x'') = Inl (OsErr False ''permission denied'')
   \<and> lstat exFs (joinPath ''/d'' ''y'') = Inr (exInfo ''y'' False)
   \<and> readdir exFs ''/d'' = ([], [], Some (OsErr False ''permission denied''))"
  using exFs_d by (simp add: readdir_def Let_def)

section \<open>renew and preview: failures\<close>

lemma scanLoop_Nil: "scanLoop k [] acc = Inr acc"
  by (cases k) simp_all

text \<open>
  Claim C5 does not hold of the code. When \<^verbatim>\<open>os.Stat\<close> fails on the path of a
  Listing of the stack, the goroutine of \<open>renew\<close> logs the error and then panics on
  the nil \<^verbatim>\<open>FileInfo\<close>. When the previewer's output pipe cannot be obtained, \<open>preview\<close>
  logs the error and then panics on the nil pipe. A panic in a goroutine ends the
  process. When only the start of the previewer fails, \<open>preview\<close> logs the error
  and sends a Register without lines.
\<close>

theorem renew_and_preview_panic:
  "stat exWorld (dir.path (exDir [exA])) = Inl (OsErr True ''no such file or directory'')
   \<and> renewWorker exWorld exExt (exOpts ''name'' False False True) (exDir [exA])
       = (Inl Panic, [''getting directory info: no such file or directory''])
   \<and> stdoutPipe exNoPipe (previewer exPv) ''/d/a.txt'' = Some (OsErr False ''too many open files'')
   \<and> preview exNoPipe exPv (exNav 5 (exDir [exA]))
       = (Inl Panic, [''previewing file: too many open files''])
   \<and> start exNoStart (previewer exPv) ''/d/a.txt'' = Some (OsErr False ''executable file not found'')
   \<and> preview exNoStart exPv (exNav 5 (exDir [exA]))
       = (Inr (Some \<lparr>path = ''/d/a.txt'', lines = []\<rparr>),
          [''previewing file: executable file not found''])"
  by (simp add: renewWorker_def preview_def exNoPipe_def exNoStart_def exPv_def exWorld_def
        currFile_def currDir_def scanReg_def len_def Let_def scanLoop_Nil)
     (simp add: exNav_def exDir_def ex_defs)

section \<open>loadReg and its worker\<close>

lemma scanReg_path: "scanReg q h c = (r', l) \<Longrightarrow> reg.path r' = q"
  by (cases c) (auto simp: scanReg_def split: sum.splits)

lemma preview_key:
  assumes "preview w g m = (Inr (Some r), lg)"
  shows "\<exists>cf. currFile m = Inr cf \<and> reg.path r = fileT.path cf"
proof (cases "currFile m")
  case (Inl e)
  then show ?thesis using assms by (cases e) (simp_all add: preview_def)
next
  case (Inr cf)
  let ?q = "fileT.path cf"
  show ?thesis
  proof (cases "len (previewer g) \<noteq> 0")
    case True
    show ?thesis
    proof (cases "stdoutPipe w (previewer g) ?q")
      case None
      obtain r' l where s: "scanReg ?q (height m) (pipeLines w (previewer g) ?q (height m)) = (r', l)"
        by (cases "scanReg ?q (height m) (pipeLines w (previewer g) ?q (height m))")
      have "r = r'" using assms Inr True None s by (simp add: preview_def Let_def)
      then show ?thesis using Inr scanReg_path [OF s] by simp
    next
      case (Some e)
      then show ?thesis using assms Inr True by (simp add: preview_def Let_def)
    qed
  next
    case False
    show ?thesis
    proof (cases "openFile w ?q")
      case (Inl e)
      obtain r' l where s: "scanReg ?q (height m) ([], Some (OsErr False ''invalid argument'')) = (r', l)"
        by (cases "scanReg ?q (height m) ([], Some (OsErr False ''invalid argument''))")
      have "r = r'" using assms \<open>currFile m = Inr cf\<close> False Inl s by (simp add: preview_def)
      then show ?thesis using \<open>currFile m = Inr cf\<close> scanReg_path [OF s] by simp
    next
      case (Inr content)
      obtain r' l where s: "scanReg ?q (height m) content = (r', l)"
        by (cases "scanReg ?q (height m) content")
      have "r = r'" using assms \<open>currFile m = Inr cf\<close> False Inr s by (simp add: preview_def)
      then show ?thesis using \<open>currFile m = Inr cf\<close> scanReg_path [OF s] by simp
    qed
  qed
qed

lemma loadReg_frame:
  "heap (snd (loadReg p n)) = heap n" "dirs (snd (loadReg p n)) = dirs n"
  "height (snd (loadReg p n)) = height n"
  by (simp_all add: loadReg_def Let_def split: option.splits)

lemma loadReg_miss:
  assumes "regCache n p = None"
  shows "fst (loadReg p n) = \<lparr>path = p, lines = [loadingLine]\<rparr>"
    and "regCache (snd (loadReg p n)) p = Some \<lparr>path = p, lines = [loadingLine]\<rparr>"
    and "effects (snd (loadReg p n)) = effects n @ [GoPreview, RegCachePut p]"
  using assms by (simp_all add: loadReg_def Let_def)

lemma preview_delivers:
  assumes "currFile m = Inr cf" "len (previewer g) = 0"
  shows "\<exists>r lg. preview w g m = (Inr (Some r), lg)"
proof (cases "openFile w (fileT.path cf)")
  case (Inl e)
  then show ?thesis using assms
    by (cases "scanReg (fileT.path cf) (height m) ([], Some (OsErr False ''invalid argument''))")
       (simp add: preview_def)
next
  case (Inr content)
  then show ?thesis using assms
    by (cases "scanReg (fileT.path cf) (height m) content") (simp add: preview_def)
qed

lemma exDown_dir:
  "dir_down (exOpts ''name'' False False True) 5 1 (exDir [exA, exB])
     = (exDir [exA, exB])\<lparr>ind := 1, pos := 1\<rparr>"
proof -
  have a: "add64 0 1 = 1" "sub64 1 1 = 0" "sub64 5 0 = 5" "sub64 5 1 = 4" "sub64 2 1 = 1"
    "add64 2 1 = 3" "sub64 3 1 = 2" "quot64 5 2 = 2" "rem64 5 2 = 1"
    by (simp_all add: add64_def sub64_def i64_def quot64_def rem64_def)
  have l: "len (fi (exDir [exA, exB])) = 2" "ind (exDir [exA, exB]) = 0" "pos (exDir [exA, exB]) = 0"
    by (simp_all add: exDir_def len_def)
  have s: "scrolloff (exOpts ''name'' False False True) = 0" by (simp add: exOpts_def)
  show ?thesis by (simp add: dir_down_def Let_def l s a)
qed

lemma exDown_nav:
  "\<exists>m. nav_down (exOpts ''name'' False False True) 1
          (snd (loadReg ''/d/a.txt'' (exNav 5 (exDir [exA, exB])))) = Some m
       \<and> currFile m = Inr exB"
proof -
  let ?n1 = "snd (loadReg ''/d/a.txt'' (exNav 5 (exDir [exA, exB])))"
  have h: "heap ?n1 = [exDir [exA, exB]]" "dirs ?n1 = [0]" "height ?n1 = 5"
    by (simp_all add: loadReg_frame exNav_def)
  let ?m = "?n1\<lparr>heap := [(exDir [exA, exB])\<lparr>ind := 1, pos := 1\<rparr>]\<rparr>"
  have d: "nav_down (exOpts ''name'' False False True) 1 ?n1 = Some ?m"
    by (simp add: nav_down_def onCurrDir_def currDir_def h exDown_dir)
  have hm: "dirs ?m = [0]" "heap ?m = [(exDir [exA, exB])\<lparr>ind := 1, pos := 1\<rparr>]"
    by (simp_all add: h)
  have f: "fi ((exDir [exA, exB])\<lparr>ind := 1, pos := 1\<rparr>) = [exA, exB]"
    "ind ((exDir [exA, exB])\<lparr>ind := 1, pos := 1\<rparr>) = 1"
    by (simp_all add: exDir_def)
  have c: "currFile ?m = Inr exB"
    unfolding currFile_def currDir_def hm by (simp add: f len_def)
  show ?thesis using d c by blast
qed

text \<open>
  Claim C10. On a path that is not cached, \<open>loadReg\<close> starts a preview worker and
  caches a \<open>loading\<close> placeholder under the requested path. The worker is not given
  the path: whenever it sends a Register, the Register is keyed by the path of the
  file under the cursor in the state in which the worker runs. That path need not
  be the requested one: a request for the highlighted file, one step down, and
  then the worker, give a Register for the next file.
\<close>

theorem loadReg_worker_previews_current_file:
  "(regCache n p = None \<longrightarrow>
      fst (loadReg p n) = \<lparr>path = p, lines = [loadingLine]\<rparr>
      \<and> regCache (snd (loadReg p n)) p = Some \<lparr>path = p, lines = [loadingLine]\<rparr>
      \<and> effects (snd (loadReg p n)) = effects n @ [GoPreview, RegCachePut p])
   \<and> (\<forall>m r lg. preview w g m = (Inr (Some r), lg) \<longrightarrow>
         (\<exists>cf. currFile m = Inr cf \<and> reg.path r = fileT.path cf))
   \<and> (\<exists>w' g' n' p' m r lg.
         regCache n' p' = None \<and> nav_down g' 1 (snd (loadReg p' n')) = Some m
         \<and> preview w' g' m = (Inr (Some r), lg) \<and> reg.path r \<noteq> p')"
proof (intro conjI impI allI)
  assume "regCache n p = None"
  then show "fst (loadReg p n) = \<lparr>path = p, lines = [loadingLine]\<rparr>"
    and "regCache (snd (loadReg p n)) p = Some \<lparr>path = p, lines = [loadingLine]\<rparr>"
    and "effects (snd (loadReg p n)) = effects n @ [GoPreview, RegCachePut p]"
    by (rule loadReg_miss)+
next
  fix m r lg assume "preview w g m = (Inr (Some r), lg)"
  then show "\<exists>cf. currFile m = Inr cf \<and> reg.path r = fileT.path cf" by (rule preview_key)
next
  let ?g = "exOpts ''name'' False False True"
  let ?n = "exNav 5 (exDir [exA, exB])"
  from exDown_nav obtain m where m: "nav_down ?g 1 (snd (loadReg ''/d/a.txt'' ?n)) = Some m"
    "currFile m = Inr exB" by blast
  have "len (previewer ?g) = 0" by (simp add: exOpts_def len_def)
  from preview_delivers [OF m(2) this, of exWorld]
  obtain r lg where r: "preview exWorld ?g m = (Inr (Some r), lg)" by blast
  from preview_key [OF r] m(2) have "reg.path r = ''/d/b.txt''" by (simp add: ex_defs)
  then have ne: "reg.path r \<noteq> ''/d/a.txt''" by simp
  have c: "regCache ?n ''/d/a.txt'' = None" by (simp add: exNav_def)
  show "\<exists>w' g' n' p' m r lg.
         regCache n' p' = None \<and> nav_down g' 1 (snd (loadReg p' n')) = Some m
         \<and> preview w' g' m = (Inr (Some r), lg) \<and> reg.path r \<noteq> p'"
    using c m(1) r ne by blast
qed

theorem loadReg_worker_previews_current_file_witness:
  "regCache (exNav 5 (exDir [exA, exB])) ''/d/a.txt'' = None
   \<and> fst (loadReg ''/d/a.txt'' (exNav 5 (exDir [exA, exB])))
       = \<lparr>path = ''/d/a.txt'', lines = [loadingLine]\<rparr>
   \<and> effects (snd (loadReg ''/d/a.txt'' (exNav 5 (exDir [exA, exB])))) = [GoPreview, RegCachePut ''/d/a.txt'']
   \<and> (\<exists>m r lg. nav_down (exOpts ''name'' False False True) 1
                 (snd (loadReg ''/d/a.txt'' (exNav 5 (exDir [exA, exB])))) = Some m
          \<and> preview exWorld (exOpts ''name'' False False True) m = (Inr (Some r), lg)
          \<and> currFile m = Inr exB \<and> reg.path r = ''/d/b.txt'')"
proof -
  let ?g = "exOpts ''name'' False False True"
  let ?n = "exNav 5 (exDir [exA, exB])"
  have c: "regCache ?n ''/d/a.txt'' = None" "effects ?n = []" by (simp_all add: exNav_def)
  note t = loadReg_worker_previews_current_file [of ?n "''/d/a.txt''" exWorld ?g]
  from exDown_nav obtain m where m: "nav_down ?g 1 (snd (loadReg ''/d/a.txt'' ?n)) = Some m"
    "currFile m = Inr exB" by blast
  have "len (previewer ?g) = 0" by (simp add: exOpts_def len_def)
  from preview_delivers [OF m(2) this, of exWorld]
  obtain r lg where r: "preview exWorld ?g m = (Inr (Some r), lg)" by blast
  from t r have "\<exists>cf. currFile m = Inr cf \<and> reg.path r = fileT.path cf" by blast
  with m(2) have "reg.path r = ''/d/b.txt''" by (simp add: ex_defs)
  with m r have 2: "\<exists>m r lg. nav_down ?g 1 (snd (loadReg ''/d/a.txt'' ?n)) = Some m
          \<and> preview exWorld ?g m = (Inr (Some r), lg)
          \<and> currFile m = Inr exB \<and> reg.path r = ''/d/b.txt''" by blast
  from t c have 1: "fst (loadReg ''/d/a.txt'' ?n) = \<lparr>path = ''/d/a.txt'', lines = [loadingLine]\<rparr>"
    "effects (snd (loadReg ''/d/a.txt'' ?n)) = [GoPreview, RegCachePut ''/d/a.txt'']"
    by simp_all
  show ?thesis using c(1) 1 2 by blast
qed
end
